theory Spec2Isabelle
  imports Main "HOL-Library.Word" "HOL-Library.Monad_Syntax"
begin

unbundle bit_operations_syntax

section \<open>The jp_alloc size-class allocator (src/jp_alloc.cpp)\<close>

text \<open>
  The allocator is embedded as state-passing functions over an explicit store.
  \<^item> \<open>size_t\<close> and pointers are 64-bit words; \<open>nullptr\<close> is the word 0. Unsigned
    arithmetic wraps, as \<open>size_t\<close> arithmetic does.
  \<^item> The store \<open>mem\<close> maps an address to the machine word kept there; \<open>None\<close> is an
    address that is not mapped. The allocator itself only ever reads and writes the two
    words of a \<open>header\<close>: \<open>s.size\<close> at offset 0 and \<open>s.next\<close> at offset 8.
  \<^item> A read or a write of an unmapped address, a shift of \<open>1U\<close> by 32 or more and an
    index outside \<open>g_pools\<close> are undefined behaviour of the C++ program; every function
    that can run into one returns \<open>None\<close> there.
  \<^item> The page source (\<open>mmap\<close>/\<open>munmap\<close>) is outside the program. Its future answers
    are the list \<open>src\<close> of the state: each call of \<open>os_alloc_pages\<close> takes the next
    one (0 is \<open>MAP_FAILED\<close>; an exhausted list fails). Every call is logged in
    \<open>maps\<close> (granted regions) and \<open>unmaps\<close> (regions handed to \<open>os_free_pages\<close>).
  \<^item> \<open>sizeof(header)\<close> and the page size depend on the platform; they are the
    parameters \<open>hs\<close> and \<open>ps\<close> of every function that uses them.
  \<^item> The program is compiled with \<open>DEBUG\<close> defined (line 10 of the source), so the
    live marker \<open>h->s.next = h\<close> and the bad-free test are part of the model. The
    statistics counters, which only feed \<open>jpalloc_print_stats\<close>, are left out.
  \<^item> The atomics are taken sequentially: a compare-exchange on \<open>head\<close> succeeds at once.
\<close>

type_synonym size_t = "64 word"
type_synonym addr = "64 word"

record state =
  mem :: "addr \<Rightarrow> size_t option"
  head :: "nat \<Rightarrow> addr"
  src :: "addr list"
  maps :: "(addr \<times> size_t) list"
  unmaps :: "(addr \<times> size_t) list"

definition JP_ALLOC_POOL_COUNT :: nat where
  "JP_ALLOC_POOL_COUNT = 16"

subsection \<open>Store access\<close>

definition load :: "state \<Rightarrow> addr \<Rightarrow> size_t option" where
  "load st a = mem st a"

definition store :: "state \<Rightarrow> addr \<Rightarrow> size_t \<Rightarrow> state option" where
  "store st a v = (case mem st a of None \<Rightarrow> None
                   | Some _ \<Rightarrow> Some (st\<lparr>mem := (mem st)(a \<mapsto> v)\<rparr>))"

text \<open>The two fields of \<open>header::s\<close>.\<close>

definition size_of :: "addr \<Rightarrow> addr" where
  "size_of h = h"

definition next_of :: "addr \<Rightarrow> addr" where
  "next_of h = h + 8"

text \<open>\<open>1U << n\<close>: an \<open>unsigned int\<close> shift, widened to \<open>size_t\<close> where it is used.\<close>

definition shl1U :: "size_t \<Rightarrow> size_t" where
  "shl1U n = ucast (push_bit (unat n) (1 :: 32 word))"

subsection \<open>The page source\<close>

definition os_alloc_pages :: "size_t \<Rightarrow> state \<Rightarrow> addr \<times> state" where
  "os_alloc_pages sz st =
     (case src st of
        [] \<Rightarrow> (0, st)
      | a # rest \<Rightarrow>
          if a = 0 then (0, st\<lparr>src := rest\<rparr>)
          else (a, st\<lparr>mem := (\<lambda>x. if x - a < sz then Some 0 else mem st x),
                      src := rest,
                      maps := (a, sz) # maps st\<rparr>))"

definition os_free_pages :: "addr \<Rightarrow> size_t \<Rightarrow> state \<Rightarrow> state" where
  "os_free_pages a sz st =
     st\<lparr>mem := (\<lambda>x. if x - a < sz then None else mem st x),
        unmaps := (a, sz) # unmaps st\<rparr>"

subsection \<open>The pool stack\<close>

definition pool_put :: "addr \<Rightarrow> nat \<Rightarrow> state \<Rightarrow> state option" where
  "pool_put h p st =
     (if JP_ALLOC_POOL_COUNT \<le> p then None
      else do {
        let expected = head st p;
        st \<leftarrow> store st (next_of h) expected;
        Some (st\<lparr>head := (head st)(p := h)\<rparr>)
      })"

function pool_get :: "nat \<Rightarrow> state \<Rightarrow> (addr \<times> state) option" where
  "pool_get p st =
     (if JP_ALLOC_POOL_COUNT \<le> p then None
      else do {
        let expected = head st p;
        st \<leftarrow> (if expected \<noteq> 0
               then do {
                 nxt \<leftarrow> load st (next_of expected);
                 Some (st\<lparr>head := (head st)(p := nxt)\<rparr>)
               }
               else Some st);
        (expected, st) \<leftarrow>
          (if expected = 0 then
             (if p = JP_ALLOC_POOL_COUNT - 1 then do {
                let sz = push_bit (JP_ALLOC_POOL_COUNT - 1) (1 :: size_t);
                let (expected, st) = os_alloc_pages sz st;
                st \<leftarrow> (if expected \<noteq> 0
                       then store st (size_of expected) (of_nat (JP_ALLOC_POOL_COUNT - 1))
                       else Some st);
                Some (expected, st)
              }
              else do {
                (m, st) \<leftarrow> pool_get (p + 1) st;
                if m \<noteq> 0 then do {
                  let expected = m;
                  sz0 \<leftarrow> load st (size_of expected);
                  let sz = sz0 - 1;
                  if 32 \<le> sz then None
                  else do {
                    let spare = m + shl1U sz;
                    st \<leftarrow> store st (size_of expected) sz;
                    st \<leftarrow> store st (size_of spare) sz;
                    st \<leftarrow> pool_put spare p st;
                    Some (expected, st)
                  }
                }
                else Some (expected, st)
              })
           else Some (expected, st));
        st \<leftarrow> (if expected \<noteq> 0 then store st (next_of expected) expected else Some st);
        Some (expected, st)
      })"
  by pat_completeness auto
termination
  by (relation "measure (\<lambda>(p, st). JP_ALLOC_POOL_COUNT - p)") auto

subsection \<open>Size classes\<close>

function pool_id_loop :: "size_t \<Rightarrow> size_t \<Rightarrow> size_t" where
  "pool_id_loop sz ident =
     (if sz \<noteq> 0 then pool_id_loop (drop_bit 1 sz) (ident + 1) else ident)"
  by pat_completeness auto
termination
proof (relation "measure (\<lambda>(sz, ident). unat sz)")
  show "wf (measure (\<lambda>(sz, ident). unat sz))" by simp
next
  fix sz ident :: size_t
  assume "sz \<noteq> 0"
  then have "unat sz \<noteq> 0" by (simp add: unat_eq_0)
  then have "unat sz div 2 < unat sz" by simp
  then have "unat (drop_bit 1 sz) < unat sz"
    by (simp add: drop_bit_eq_div unat_div)
  then show "((drop_bit 1 sz, ident + 1), (sz, ident)) \<in> measure (\<lambda>(sz, ident). unat sz)"
    by simp
qed

definition pool_id :: "size_t \<Rightarrow> size_t" where
  "pool_id sz = pool_id_loop (sz - 1) 0"

definition is_pow2 :: "size_t \<Rightarrow> bool" where
  "is_pow2 n = (n AND (n - 1) = 0)"

text \<open>Rounding to whole pages: \<open>(size + ps - 1) & ~(ps - 1)\<close>.\<close>

definition round_pages :: "size_t \<Rightarrow> size_t \<Rightarrow> size_t" where
  "round_pages ps sz = (sz + ps - 1) AND NOT (ps - 1)"

subsection \<open>Aligned page spans\<close>

definition alloc_pages_aligned :: "size_t \<Rightarrow> size_t \<Rightarrow> size_t \<Rightarrow> size_t \<Rightarrow> state \<Rightarrow> addr \<times> state" where
  "alloc_pages_aligned ps hs alignment sz st =
     (if \<not> is_pow2 alignment then (0, st)
      else
        let (pre_padding, align_size, alignment) =
              (if alignment > ps then (ps - hs, alignment - ps, alignment)
               else if alignment > hs then (alignment - hs, 0, alignment)
               else (0, 0, hs));
            span_size = pre_padding + sz + align_size;
            span_size_rounded = round_pages ps span_size;
            (span, st) = os_alloc_pages span_size_rounded st
        in if span = 0 then (0, st)
           else
             let hdr = span + pre_padding;
                 offset = ((alignment - (hdr + hs)) AND (alignment - 1)) AND (alignment - 1);
                 hdr = hdr + offset;
                 st = (if align_size > 0 then
                         let pre_size = offset;
                             post_size = align_size - pre_size;
                             st = (if pre_size > 0 then os_free_pages span pre_size st else st);
                             st = (if post_size > 0
                                   then os_free_pages (span + span_size_rounded - post_size) post_size st
                                   else st)
                         in st
                       else st)
             in (hdr, st))"

subsection \<open>Entry points\<close>

definition jp_good_size :: "size_t \<Rightarrow> size_t \<Rightarrow> size_t \<Rightarrow> size_t" where
  "jp_good_size ps hs sz =
     (let pid = pool_id sz;
          sz = (if unat pid < JP_ALLOC_POOL_COUNT then shl1U pid
                else let ps_mask = ps - 1 in (sz + ps_mask) AND NOT ps_mask)
      in sz - hs)"

definition jp_free :: "size_t \<Rightarrow> size_t \<Rightarrow> addr \<Rightarrow> state \<Rightarrow> state option" where
  "jp_free ps hs m st =
     (if m = 0 then Some st
      else do {
        let h = m - hs;
        nxt \<leftarrow> load st (next_of h);
        if nxt \<noteq> h then Some st
        else do {
          sz \<leftarrow> load st (size_of h);
          if unat sz < JP_ALLOC_POOL_COUNT then pool_put h (unat sz) st
          else
            let pre_padding = m AND (ps - 1)
            in Some (os_free_pages (h + pre_padding) (sz + pre_padding) st)
        }
      })"

definition jp_alloc :: "size_t \<Rightarrow> size_t \<Rightarrow> size_t \<Rightarrow> state \<Rightarrow> (addr \<times> state) option" where
  "jp_alloc ps hs sz st =
     (let sz = sz + hs;
          pid = pool_id sz
      in if unat pid < JP_ALLOC_POOL_COUNT then do {
           (m, st) \<leftarrow> pool_get (unat pid) st;
           Some (m + hs, st)
         }
         else
           let ps_mask = ps - 1;
               sz = (sz + ps_mask) AND NOT ps_mask;
               (m, st) = os_alloc_pages sz st
           in if m = 0 then Some (0, st)
              else do {
                let h = m;
                st \<leftarrow> store st (size_of h) sz;
                st \<leftarrow> store st (next_of h) h;
                Some (m + hs, st)
              })"

definition jp_alloc_aligned :: "size_t \<Rightarrow> size_t \<Rightarrow> size_t \<Rightarrow> size_t \<Rightarrow> state \<Rightarrow> (addr \<times> state) option" where
  "jp_alloc_aligned ps hs alignment sz st =
     (let sz = sz + hs;
          (m, st) = alloc_pages_aligned ps hs alignment sz st
      in if m = 0 then Some (0, st)
         else do {
           let h = m;
           st \<leftarrow> store st (size_of h) sz;
           st \<leftarrow> store st (next_of h) h;
           Some (m + hs, st)
         })"

text \<open>
  \<open>memcpy(dst, from, n)\<close> copies the \<open>n\<close> cells from \<open>from\<close> to \<open>dst\<close>; touching an
  unmapped cell is undefined.
\<close>

primrec mapped_cells :: "state \<Rightarrow> addr \<Rightarrow> nat \<Rightarrow> bool" where
  "mapped_cells st a 0 = True"
| "mapped_cells st a (Suc k) = (mem st (a + of_nat k) \<noteq> None \<and> mapped_cells st a k)"

definition memcpy :: "addr \<Rightarrow> addr \<Rightarrow> size_t \<Rightarrow> state \<Rightarrow> state option" where
  "memcpy dst from n st =
     (if mapped_cells st dst (unat n) \<and> mapped_cells st from (unat n)
      then Some (st\<lparr>mem := (\<lambda>x. if x - dst < n then mem st (from + (x - dst)) else mem st x)\<rparr>)
      else None)"

definition jp_realloc :: "size_t \<Rightarrow> size_t \<Rightarrow> addr \<Rightarrow> size_t \<Rightarrow> state \<Rightarrow> (addr \<times> state) option" where
  "jp_realloc ps hs m new_size st =
     do {
       sz \<leftarrow> (if m \<noteq> 0 then do {
                 let h = m - hs;
                 sz \<leftarrow> load st (size_of h);
                 let sz = (if unat sz < JP_ALLOC_POOL_COUNT then shl1U sz else sz);
                 Some (sz - hs)
               }
               else Some 0);
       if new_size > sz then do {
         (new_mem, st) \<leftarrow> jp_alloc ps hs new_size st;
         st \<leftarrow> (if new_mem \<noteq> 0 then memcpy new_mem m sz st else Some st);
         st \<leftarrow> jp_free ps hs m st;
         Some (new_mem, st)
       }
       else if new_size = 0 then do {
         st \<leftarrow> jp_free ps hs m st;
         Some (0, st)
       }
       else Some (m, st)
     }"

definition malloc_usable_size :: "size_t \<Rightarrow> addr \<Rightarrow> state \<Rightarrow> size_t option" where
  "malloc_usable_size hs ptr st =
     do {
       let h = ptr - hs;
       sz \<leftarrow> load st (size_of h);
       let sz = (if unat sz < JP_ALLOC_POOL_COUNT then shl1U sz else sz);
       Some (sz - hs)
     }"

subsection \<open>The state at program start\<close>

text \<open>
  \<open>g_pools\<close> is zero-initialised, nothing is mapped, and the page source will answer
  with the addresses \<open>as\<close>.
\<close>

definition init_state :: "addr list \<Rightarrow> state" where
  "init_state as = \<lparr>mem = (\<lambda>x. None), head = (\<lambda>p. 0), src = as, maps = [], unmaps = []\<rparr>"


text \<open>
  A state with one live block of class 6: its header is at 65536, with the class index in
  \<open>s.size\<close> and the live marker in \<open>s.next\<close>; the user pointer is 65568 when
  \<open>sizeof(header)\<close> is 32.
\<close>

definition live_block_state :: state where
  "live_block_state =
     \<lparr>mem = (\<lambda>x. if x - 65536 < 64 then Some (if x = 65536 then 6 else if x = 65544 then 65536 else 0) else None),
      head = (\<lambda>p. 0), src = [], maps = [(65536, 64)], unmaps = []\<rparr>"

subsection \<open>The free lists as data\<close>

text \<open>
  The claims about \<open>pool_get\<close> and the headers it writes need the shape of the store the
  allocator maintains. A block of class \<open>i\<close> at \<open>x\<close> covers the \<open>2 ^ i\<close> addresses from
  \<open>x\<close> on; \<open>inblk a x i\<close> says that \<open>a\<close> is one of them, and \<open>disj\<close> that two blocks
  share no address.
\<close>

definition inblk :: "addr \<Rightarrow> addr \<Rightarrow> nat \<Rightarrow> bool" where
  "inblk a x i \<longleftrightarrow> a - x < 2 ^ i"

definition disj :: "addr \<Rightarrow> nat \<Rightarrow> addr \<Rightarrow> nat \<Rightarrow> bool" where
  "disj x i y j \<longleftrightarrow> (\<forall>a. \<not> (inblk a x i \<and> inblk a y j))"

text \<open>
  \<open>chain m h xs\<close>: following \<open>s.next\<close> from \<open>h\<close> in the store \<open>m\<close> visits exactly the
  headers \<open>xs\<close> and ends at null.
\<close>

primrec chain :: "(addr \<Rightarrow> size_t option) \<Rightarrow> addr \<Rightarrow> addr list \<Rightarrow> bool" where
  "chain m h [] \<longleftrightarrow> h = 0"
| "chain m h (x # xs) \<longleftrightarrow>
     h = x \<and> x \<noteq> 0 \<and> (case m (next_of x) of None \<Rightarrow> False | Some n \<Rightarrow> chain m n xs)"

text \<open>
  The invariant of \<open>g_pools\<close>, for the lists \<open>fl i\<close> of the spare blocks of each class:
  each stack is the chain of its list, without repetition; a spare block of class \<open>i\<close>
  stores \<open>i\<close> in \<open>s.size\<close>, is mapped over its whole extent and does not wrap around
  the address space; classes 0 to 3 are empty (a block of fewer than 16 bytes cannot hold
  the two words of a header); and two spare blocks never overlap.
\<close>

definition pool_inv :: "state \<Rightarrow> (nat \<Rightarrow> addr list) \<Rightarrow> bool" where
  "pool_inv st fl \<longleftrightarrow>
     (\<forall>i<JP_ALLOC_POOL_COUNT. chain (mem st) (head st i) (fl i) \<and> distinct (fl i))
   \<and> (\<forall>i<JP_ALLOC_POOL_COUNT. \<forall>x\<in>set (fl i).
         mem st (size_of x) = Some (of_nat i) \<and> \<not> inblk 0 x i
         \<and> (\<forall>a. inblk a x i \<longrightarrow> mem st a \<noteq> None))
   \<and> (\<forall>i<4. fl i = [])
   \<and> (\<forall>i<JP_ALLOC_POOL_COUNT. \<forall>j<JP_ALLOC_POOL_COUNT. \<forall>x\<in>set (fl i). \<forall>y\<in>set (fl j).
         (i, x) \<noteq> (j, y) \<longrightarrow> disj x i y j)"

text \<open>
  The assumption on the page source: the span it will grant next, if any, does not wrap
  around the address space and overlaps no spare block. (\<open>mmap\<close> never returns memory
  that is still mapped.)
\<close>

definition fresh_src :: "state \<Rightarrow> (nat \<Rightarrow> addr list) \<Rightarrow> bool" where
  "fresh_src st fl \<longleftrightarrow>
     (case src st of
        [] \<Rightarrow> True
      | a # _ \<Rightarrow> a \<noteq> 0 \<longrightarrow>
          \<not> inblk 0 a (JP_ALLOC_POOL_COUNT - 1)
          \<and> (\<forall>j<JP_ALLOC_POOL_COUNT. \<forall>y\<in>set (fl j). disj a (JP_ALLOC_POOL_COUNT - 1) y j))"

text \<open>
  What \<open>pool_get\<close> hands out: a block of class \<open>p\<close> at \<open>m\<close> with the class in
  \<open>s.size\<close>, the live marker \<open>s.next = m\<close>, mapped over its whole extent and disjoint
  from every spare block.
\<close>

definition live_block :: "state \<Rightarrow> (nat \<Rightarrow> addr list) \<Rightarrow> addr \<Rightarrow> nat \<Rightarrow> bool" where
  "live_block st fl m p \<longleftrightarrow>
     mem st (size_of m) = Some (of_nat p) \<and> mem st (next_of m) = Some m
   \<and> \<not> inblk 0 m p
   \<and> (\<forall>a. inblk a m p \<longrightarrow> mem st a \<noteq> None)
   \<and> (\<forall>j<JP_ALLOC_POOL_COUNT. \<forall>y\<in>set (fl j). disj m p y j)"

subsection \<open>Runs of the program\<close>

text \<open>
  \<open>grounded\<close>: every mapped address lies in a span that the page source granted.
\<close>

definition grounded :: "state \<Rightarrow> bool" where
  "grounded st \<longleftrightarrow> (\<forall>x. mem st x \<noteq> None \<longrightarrow> (\<exists>(a, sz)\<in>set (maps st). x - a < sz))"


text \<open>
  The state after \<open>jp_alloc(1)\<close> at program start, with \<open>sizeof(header) = 32\<close> and a
  page source that grants the span at 65536: the block of class 6 at 65536 is live, its
  user pointer is 65568, and the spare block of class 6 at 65600 is on its stack.
\<close>

definition one_block_state :: state where
  "one_block_state =
     (case jp_alloc 4096 32 1 (init_state [65536]) of Some (p, st) \<Rightarrow> st | None \<Rightarrow> init_state [])"

subsection \<open>The number of binary digits\<close>

text \<open>
  The loop of \<open>pool_id\<close> counts the binary digits of \<open>size - 1\<close>; \<open>bit_length\<close> is
  that count on the naturals, used to state what the loop computes.
\<close>

fun bit_length :: "nat \<Rightarrow> nat" where
  "bit_length n = (if n = 0 then 0 else Suc (bit_length (n div 2)))"

section \<open>Powers of two\<close>

text \<open>
  \<open>is_pow2\<close> tests \<open>n & (n - 1) == 0\<close>. It accepts exactly 0 and the powers of two;
  the source's comment says so: "true for 0 also".
\<close>

lemma nat_and_pred_pow2:
  fixes n :: nat
  shows "0 < n \<Longrightarrow> n AND (n - 1) = 0 \<Longrightarrow> \<exists>k. n = 2 ^ k"
proof (induction n rule: less_induct)
  case (less n)
  show ?case
  proof (cases "n = 1")
    case True
    then have "n = 2 ^ 0" by simp
    then show ?thesis by blast
  next
    case False
    with less.prems have n2: "2 \<le> n" by simp
    show ?thesis
    proof (cases "even n")
      case True
      then obtain m where m: "n = 2 * m" by (auto elim: evenE)
      with n2 have m0: "0 < m" by simp
      have "n - 1 = 2 * (m - 1) + 1" using m m0 by simp
      then have "n AND (n - 1) = 2 * (m AND (m - 1))"
        using m by (simp add: and_nat_rec [of "2 * m"])
      with less.prems have "m AND (m - 1) = 0" by simp
      moreover have "m < n" using m m0 by simp
      ultimately obtain k where "m = 2 ^ k" using less.IH m0 by blast
      then have "n = 2 ^ Suc k" using m by simp
      then show ?thesis by blast
    next
      case False
      then obtain m where m: "n = 2 * m + 1" by (auto elim: oddE)
      with n2 have m0: "0 < m" by simp
      have "n AND (n - 1) = of_bool (odd n \<and> odd (n - 1)) + 2 * ((n div 2) AND ((n - 1) div 2))"
        by (rule and_nat_rec)
      moreover have "n div 2 = m" "(n - 1) div 2 = m" "even (n - 1)" using m by simp_all
      ultimately have "n AND (n - 1) = 2 * m" by simp
      with less.prems m0 show ?thesis by simp
    qed
  qed
qed

lemma is_pow2_iff: "is_pow2 a \<longleftrightarrow> a = 0 \<or> (\<exists>k<64. a = 2 ^ k)"
proof
  assume h: "is_pow2 a"
  show "a = 0 \<or> (\<exists>k<64. a = 2 ^ k)"
  proof (cases "a = 0")
    case True then show ?thesis by simp
  next
    case False
    then have pos: "0 < unat a" by (simp add: unat_gt_0)
    have "unat (a AND (a - 1)) = 0" using h by (simp add: is_pow2_def)
    then have "unat a AND (unat a - 1) = 0"
      using False by (simp add: unsigned_and_eq unat_minus_one)
    then obtain k where k: "unat a = 2 ^ k" using nat_and_pred_pow2 pos by blast
    have "(2::nat) ^ k < 2 ^ LENGTH(64)" using unsigned_less [of a, where ?'a = nat] k by (simp only:)
    then have "k < LENGTH(64)" by (rule power_less_imp_less_exp [rotated]) simp
    then have k64: "k < 64" by simp
    have "a = of_nat (unat a)" by simp
    also have "\<dots> = 2 ^ k" unfolding k by simp
    finally show ?thesis using k64 by blast
  qed
next
  assume "a = 0 \<or> (\<exists>k<64. a = 2 ^ k)"
  then show "is_pow2 a"
  proof
    assume "a = 0" then show ?thesis by (simp add: is_pow2_def)
  next
    assume "\<exists>k<64. a = 2 ^ k"
    then obtain k where "k < 64" "a = 2 ^ k" by blast
    then have "a AND (a - 1) = take_bit k (2 ^ k :: 64 word)"
      by (simp add: take_bit_eq_mask mask_eq_exp_minus_1)
    then show ?thesis by (simp add: is_pow2_def take_bit_eq_0_iff)
  qed
qed

lemma memcpy_zero: "memcpy dst from 0 st = Some st"
  by (simp add: memcpy_def)

section \<open>Alignment arithmetic\<close>

lemma unat_pow2: "k < 64 \<Longrightarrow> unat (2 ^ k :: 64 word) = 2 ^ k"
proof -
  assume k: "k < 64"
  have "unat (2 ^ k :: 64 word) = unat (push_bit k 1 :: 64 word)" by simp
  also have "\<dots> = take_bit 64 (push_bit k (1::nat))"
    by (simp only: unsigned_push_bit_eq) simp
  also have "\<dots> = 2 ^ k"
    using k by (simp add: take_bit_nat_eq_self_iff)
  finally show ?thesis .
qed


lemma align_offset_word:
  fixes X :: "64 word"
  shows "take_bit m (X + ((2 ^ m - X) AND (2 ^ m - 1) AND (2 ^ m - 1))) = 0"
proof -
  define y where "y = 2 ^ m - X"
  have a: "(2 ^ m - X) AND (2 ^ m - 1) AND (2 ^ m - 1) = take_bit m y"
    by (simp add: take_bit_eq_mask mask_eq_exp_minus_1 and.assoc y_def)
  have "(y div 2 ^ m) * 2 ^ m + y mod 2 ^ m = y" by (rule word_mod_div_equality)
  then have "y mod 2 ^ m = y - 2 ^ m * (y div 2 ^ m)"
    by (simp add: algebra_simps)
  then have "take_bit m y = y - 2 ^ m * (y div 2 ^ m)"
    by (simp only: take_bit_eq_mod)
  then have "X + take_bit m y = 2 ^ m * (1 - y div 2 ^ m)"
    by (simp add: y_def algebra_simps)
  then have "2 ^ m dvd X + take_bit m y" by simp
  then show ?thesis unfolding a by (simp only: take_bit_eq_0_iff)
qed

lemma take_bit_word_0_mod:
  fixes p :: "64 word"
  assumes "take_bit m p = 0" "k \<le> m"
  shows "unat p mod 2 ^ k = 0"
proof -
  have "take_bit m (unat p) = unat (take_bit m p)" by (simp add: unsigned_take_bit_eq)
  with assms have "take_bit m (unat p) = 0" by simp
  then have "2 ^ m dvd unat p" by (simp add: take_bit_eq_0_iff)
  moreover have "(2::nat) ^ k dvd 2 ^ m" using assms(2) by (simp add: le_imp_power_dvd)
  ultimately have "2 ^ k dvd unat p" by (rule dvd_trans [rotated])
  then show ?thesis by simp
qed


lemma jp_alloc_aligned_ptr:
  assumes "jp_alloc_aligned ps hs a n st = Some (p, st')"
  shows "p = 0 \<or> (\<exists>X. p = X + (((if ps < a \<or> hs < a then a else hs) - X)
                                AND ((if ps < a \<or> hs < a then a else hs) - 1)
                                AND ((if ps < a \<or> hs < a then a else hs) - 1)))"
proof (cases "is_pow2 a")
  case False
  with assms show ?thesis
    by (simp add: jp_alloc_aligned_def alloc_pages_aligned_def)
next
  case True
  define e where "e = (if ps < a \<or> hs < a then a else hs)"
  define pre where "pre = (if ps < a then ps - hs else if hs < a then a - hs else 0)"
  define asz where "asz = (if ps < a then a - ps else 0)"
  define r where "r = round_pages ps (pre + (n + hs) + asz)"
  obtain span st1 where os: "os_alloc_pages r st = (span, st1)" by (cases "os_alloc_pages r st")
  define X where "X = span + pre + hs"
  define off where "off = (e - X) AND (e - 1) AND (e - 1)"
  have "fst (alloc_pages_aligned ps hs a (n + hs) st) = (if span = 0 then 0 else span + pre + off)"
    using True os
    by (auto simp: alloc_pages_aligned_def Let_def e_def pre_def asz_def r_def X_def off_def
             split: prod.splits)
  with assms have "p = 0 \<or> p = span + pre + off + hs"
    by (auto simp: jp_alloc_aligned_def Let_def split: prod.splits if_splits bind_splits)
  then have "p = 0 \<or> p = X + off" by (auto simp: X_def)
  then show ?thesis unfolding off_def e_def by blast
qed

lemma jp_good_size_one: "jp_good_size ps hs 1 = 1 - hs"
  by (simp add: jp_good_size_def pool_id_def JP_ALLOC_POOL_COUNT_def shl1U_def)

lemma jp_free_direct:
  assumes "p \<noteq> 0" "mem st (p - hs + 8) = Some (p - hs)" "mem st (p - hs) = Some sz"
    "JP_ALLOC_POOL_COUNT \<le> unat sz"
  shows "jp_free ps hs p st
         = Some (os_free_pages (p - hs + (p AND (ps - 1))) (sz + (p AND (ps - 1))) st)"
  using assms by (simp add: jp_free_def load_def size_of_def next_of_def Let_def)

section \<open>The size-class index\<close>

text \<open>
  \<open>pool_id g\<close> is the number of binary digits of \<open>g - 1\<close>, hence the least \<open>i\<close> with
  \<open>g \<le> 2 ^ i\<close> for every nonzero \<open>g\<close>.
\<close>

declare bit_length.simps [simp del]
declare pool_id_loop.simps [simp del]
declare pool_get.simps [simp del]

lemma bit_length_upper: "n < 2 ^ bit_length n"
proof (induction n rule: bit_length.induct)
  case (1 n)
  show ?case
  proof (cases "n = 0")
    case True then show ?thesis by simp
  next
    case False
    with 1 have "n div 2 < 2 ^ bit_length (n div 2)" by simp
    then have "n < 2 * 2 ^ bit_length (n div 2)" by linarith
    with False show ?thesis by (simp add: bit_length.simps [of n])
  qed
qed

lemma bit_length_lower: "0 < n \<Longrightarrow> 2 ^ (bit_length n - 1) \<le> n"
proof (induction n rule: bit_length.induct)
  case (1 n)
  show ?case
  proof (cases "n div 2 = 0")
    case True
    with 1 have "n = 1" by (simp add: div_eq_0_iff) 
    then show ?thesis by (simp add: bit_length.simps [of "Suc 0"] bit_length.simps [of 0])
  next
    case False
    with 1 have ih: "2 ^ (bit_length (n div 2) - 1) \<le> n div 2" by simp
    from False have "0 < bit_length (n div 2)" by (simp add: bit_length.simps [of "n div 2"])
    then have "(2::nat) ^ bit_length (n div 2) = 2 * 2 ^ (bit_length (n div 2) - 1)"
      by (cases "bit_length (n div 2)") simp_all
    with ih have "2 ^ bit_length (n div 2) \<le> n" by linarith
    with 1 show ?thesis by (simp add: bit_length.simps [of n])
  qed
qed

lemma bit_length_le_64: "n < 2 ^ 64 \<Longrightarrow> bit_length n \<le> 64"
proof (rule ccontr)
  assume n: "n < 2 ^ 64" and "\<not> bit_length n \<le> 64"
  then have b: "65 \<le> bit_length n" by simp
  then have "0 < n" using bit_length.simps [of n] by (cases "n = 0") simp_all
  then have "2 ^ (bit_length n - 1) \<le> n" by (rule bit_length_lower)
  moreover have "(2::nat) ^ 64 \<le> 2 ^ (bit_length n - 1)"
    using b by (intro power_increasing) simp_all
  ultimately show False using n by simp
qed

lemma pool_id_loop_bit_length:
  "unat c + bit_length (unat s) < 2 ^ 64 \<Longrightarrow>
   unat (pool_id_loop s c) = unat c + bit_length (unat s)"
proof (induction s c rule: pool_id_loop.induct)
  case (1 s c)
  show ?case
  proof (cases "s = 0")
    case True
    then show ?thesis by (simp add: bit_length.simps [of 0] pool_id_loop.simps [of 0])
  next
    case False
    then have s0: "unat s \<noteq> 0" by (simp add: unat_eq_0)
    have d: "unat (drop_bit 1 s) = unat s div 2" by (simp add: drop_bit_eq_div unat_div)
    have bl: "bit_length (unat s) = Suc (bit_length (unat s div 2))"
      using s0 by (simp add: bit_length.simps [of "unat s"])
    from 1(2) bl have c1: "unat c + 1 < 2 ^ 64" by simp
    then have uc: "unat (c + 1) = unat c + 1" by (simp add: unat_add_lem [THEN iffD1])
    have "unat (pool_id_loop (drop_bit 1 s) (c + 1)) = unat (c + 1) + bit_length (unat (drop_bit 1 s))"
      using 1(1) [OF False] 1(2) bl uc d by simp
    then show ?thesis using False bl uc d by (simp add: pool_id_loop.simps [of s c])
  qed
qed

lemma unat_pool_id: "unat (pool_id g) = bit_length (unat (g - 1))"
proof -
  have "unat (g - 1) < 2 ^ 64" using unsigned_less [of "g - 1", where ?'a = nat] by simp
  then have "bit_length (unat (g - 1)) \<le> 64" by (rule bit_length_le_64)
  then have "unat (0 :: 64 word) + bit_length (unat (g - 1)) < 2 ^ 64" by simp
  then show ?thesis unfolding pool_id_def
    using pool_id_loop_bit_length [of 0 "g - 1"] by simp
qed

lemma pool_id_ceil_log2:
  assumes "g \<noteq> 0"
  shows "unat g \<le> 2 ^ unat (pool_id g)"
    and "unat g \<le> 2 ^ j \<Longrightarrow> unat (pool_id g) \<le> j"
proof -
  have g1: "unat (g - 1) = unat g - 1" using assms by (simp add: unat_minus_one)
  have pos: "0 < unat g" using assms by (simp add: unat_gt_0)
  have "unat g - 1 < 2 ^ bit_length (unat g - 1)" by (rule bit_length_upper)
  then show "unat g \<le> 2 ^ unat (pool_id g)" using pos by (simp add: unat_pool_id g1)
  show "unat (pool_id g) \<le> j" if le: "unat g \<le> 2 ^ j"
  proof (cases "unat g - 1 = 0")
    case True
    then show ?thesis by (simp add: unat_pool_id g1 bit_length.simps [of 0])
  next
    case False
    then have "2 ^ (bit_length (unat g - 1) - 1) \<le> unat g - 1" by (intro bit_length_lower) simp
    with le pos have "(2::nat) ^ (bit_length (unat g - 1) - 1) < 2 ^ j" by linarith
    then have "bit_length (unat g - 1) - 1 < j" by simp
    then show ?thesis by (simp add: unat_pool_id g1)
  qed
qed

lemma pool_id_eqI:
  assumes "2 ^ i < 2 * unat g" "unat g \<le> 2 ^ i"
  shows "unat (pool_id g) = i"
proof -
  have g0: "g \<noteq> 0" using assms(1) by (auto simp: unat_eq_0)
  have up: "unat (pool_id g) \<le> i" using pool_id_ceil_log2(2) [OF g0 assms(2)] .
  have "unat g \<le> 2 ^ unat (pool_id g)" by (rule pool_id_ceil_log2(1) [OF g0])
  with assms(1) have "(2::nat) ^ i < 2 ^ Suc (unat (pool_id g))" by simp
  then have "i < Suc (unat (pool_id g))" by (simp only: power_strict_increasing_iff one_less_numeral_iff semiring_norm)
  with up show ?thesis by simp
qed

section \<open>The branches of \<open>pool_get\<close>\<close>

lemma pool_get_pop:
  assumes "head st p \<noteq> 0" "pool_get p st = Some (m, st')"
  shows "m = head st p"
  using assms
  by (auto simp: pool_get.simps [of p st] Let_def split: if_splits bind_splits)

lemma pool_get_nonempty:
  assumes "p < JP_ALLOC_POOL_COUNT" "head st p \<noteq> 0"
  shows "pool_get p st =
           do {
             nxt \<leftarrow> load st (next_of (head st p));
             st' \<leftarrow> store (st\<lparr>head := (head st)(p := nxt)\<rparr>) (next_of (head st p)) (head st p);
             Some (head st p, st')
           }"
  using assms
  by (simp add: pool_get.simps [of p st] Let_def split: bind_split)

lemma pool_get_terminal:
  assumes "p = JP_ALLOC_POOL_COUNT - 1" "head st p = 0"
  shows "pool_get p st =
           (case os_alloc_pages (2 ^ p) st of
              (e, st1) \<Rightarrow>
                if e \<noteq> 0 then do {
                  st2 \<leftarrow> store st1 (size_of e) (of_nat p);
                  st3 \<leftarrow> store st2 (next_of e) e;
                  Some (e, st3)
                }
                else Some (0, st1))"
proof -
  have p: "p = 15" using assms(1) by (simp add: JP_ALLOC_POOL_COUNT_def)
  show ?thesis
    using assms(2) unfolding p
    by (subst pool_get.simps)
       (simp add: Let_def JP_ALLOC_POOL_COUNT_def split: bind_split prod.split)
qed

lemma pool_get_refill:
  assumes "p < JP_ALLOC_POOL_COUNT - 1" "head st p = 0"
  shows "pool_get p st =
           do {
             (m, st1) \<leftarrow> pool_get (p + 1) st;
             if m \<noteq> 0 then do {
               sz0 \<leftarrow> load st1 (size_of m);
               if 32 \<le> sz0 - 1 then None
               else do {
                 st2 \<leftarrow> store st1 (size_of m) (sz0 - 1);
                 st3 \<leftarrow> store st2 (size_of (m + shl1U (sz0 - 1))) (sz0 - 1);
                 st4 \<leftarrow> pool_put (m + shl1U (sz0 - 1)) p st3;
                 st5 \<leftarrow> store st4 (next_of m) m;
                 Some (m, st5)
               }
             }
             else Some (0, st1)
           }"
proof -
  from assms(1) have "\<not> JP_ALLOC_POOL_COUNT \<le> p" "p \<noteq> JP_ALLOC_POOL_COUNT - 1" by simp_all
  with assms(2) show ?thesis
    by (subst pool_get.simps) (simp add: Let_def split: bind_split prod.split)
qed

section \<open>Extents of blocks\<close>

lemma inblk_unat: "i < 64 \<Longrightarrow> inblk a x i \<longleftrightarrow> unat (a - x) < 2 ^ i"
  by (simp add: inblk_def word_less_nat_alt unat_pow2)

lemma inblk_self: "i < 64 \<Longrightarrow> inblk x x i"
  by (simp add: inblk_unat)

lemma inblk_next: "4 \<le> i \<Longrightarrow> i < 64 \<Longrightarrow> inblk (next_of x) x i"
proof -
  assume i: "4 \<le> i" "i < 64"
  have "(2::nat) ^ 4 \<le> 2 ^ i" using i by (intro power_increasing) simp_all
  then show ?thesis using i by (simp add: inblk_unat next_of_def)
qed

lemma unat_add_pow2:
  fixes e :: "64 word"
  assumes "p < 63" "unat e < 2 ^ p"
  shows "unat (e + 2 ^ p) = unat e + 2 ^ p"
proof -
  have "(2::nat) ^ p + 2 ^ p = 2 ^ Suc p" by simp
  also have "\<dots> \<le> 2 ^ 63" using assms(1) by (intro power_increasing) simp_all
  finally have "unat e + 2 ^ p < 2 ^ 64" using assms(2) by simp
  then have "unat e + unat (2 ^ p :: 64 word) < 2 ^ LENGTH(64)"
    using assms(1) by (simp add: unat_pow2)
  then have "unat (e + 2 ^ p) = unat e + unat (2 ^ p :: 64 word)"
    by (simp only: unat_add_lem [THEN iffD1])
  then show ?thesis using assms(1) by (simp add: unat_pow2)
qed

lemma inblk_lower_half: "p < 63 \<Longrightarrow> inblk a m p \<Longrightarrow> inblk a m (Suc p)"
  by (simp add: inblk_unat)

lemma inblk_upper_half:
  assumes "p < 63" "inblk a (m + 2 ^ p) p"
  shows "inblk a m (Suc p)"
proof -
  define e where "e = a - (m + 2 ^ p)"
  have e: "unat e < 2 ^ p" using assms by (simp add: inblk_unat e_def)
  have "a - m = e + 2 ^ p" by (simp add: e_def)
  then have "unat (a - m) = unat e + 2 ^ p" using unat_add_pow2 [OF assms(1) e] by simp
  with e show ?thesis using assms(1) by (simp add: inblk_unat)
qed

lemma inblk_halves_disjoint:
  assumes "p < 63" "inblk a m p"
  shows "\<not> inblk a (m + 2 ^ p) p"
proof
  assume h: "inblk a (m + 2 ^ p) p"
  define e where "e = a - (m + 2 ^ p)"
  have e: "unat e < 2 ^ p" using assms(1) h by (simp add: inblk_unat e_def)
  have "a - m = e + 2 ^ p" by (simp add: e_def)
  then have "unat (a - m) = unat e + 2 ^ p" using unat_add_pow2 [OF assms(1) e] by simp
  with assms show False by (simp add: inblk_unat)
qed

lemma shl1U_of_nat: "p < 32 \<Longrightarrow> shl1U (of_nat p) = 2 ^ p"
proof -
  assume p: "p < 32"
  then have "unat (of_nat p :: 64 word) = p" by (simp add: unat_of_nat)
  then have "shl1U (of_nat p) = ucast (push_bit p (1 :: 32 word))" by (simp add: shl1U_def)
  also have "\<dots> = of_nat (unat (push_bit p (1 :: 32 word)))" by simp
  also have "unat (push_bit p (1 :: 32 word)) = take_bit 32 (push_bit p (1::nat))"
    by (simp only: unsigned_push_bit_eq) simp
  also have "\<dots> = 2 ^ p" using p by (simp add: take_bit_nat_eq_self_iff)
  finally show ?thesis by simp
qed

section \<open>The free-list invariant\<close>

text \<open>
  \<open>pool_get\<close> keeps \<open>pool_inv\<close> for every class from 4 on, never runs into undefined
  behaviour there, and what it returns is null or a live block of the class asked for.
\<close>

lemma chain_cong:
  "(\<And>x. x \<in> set xs \<Longrightarrow> m' (next_of x) = m (next_of x)) \<Longrightarrow> chain m' h xs = chain m h xs"
  by (induction xs arbitrary: h) (auto split: option.splits)

lemma pool_lt_64: "i < JP_ALLOC_POOL_COUNT \<Longrightarrow> i < 64"
  by (simp add: JP_ALLOC_POOL_COUNT_def)

lemma pool_inv_node:
  assumes "pool_inv st fl" "i < JP_ALLOC_POOL_COUNT" "x \<in> set (fl i)"
  shows "mem st (size_of x) = Some (of_nat i)"
    and "\<not> inblk 0 x i"
    and "\<And>a. inblk a x i \<Longrightarrow> mem st a \<noteq> None"
    and "4 \<le> i"
proof -
  from assms show "mem st (size_of x) = Some (of_nat i)" "\<not> inblk 0 x i"
    by (simp_all add: pool_inv_def)
  show "mem st a \<noteq> None" if "inblk a x i" for a
    using assms that unfolding pool_inv_def by blast
  show "4 \<le> i"
  proof (rule ccontr)
    assume "\<not> 4 \<le> i"
    then have "i < 4" by simp
    with assms(1) have "fl i = []" unfolding pool_inv_def by blast
    with assms(3) show False by simp
  qed
qed

lemma pool_inv_chain:
  "pool_inv st fl \<Longrightarrow> i < JP_ALLOC_POOL_COUNT \<Longrightarrow> chain (mem st) (head st i) (fl i)"
  and pool_inv_distinct:
  "pool_inv st fl \<Longrightarrow> i < JP_ALLOC_POOL_COUNT \<Longrightarrow> distinct (fl i)"
  by (simp_all add: pool_inv_def)

lemma pool_inv_disj:
  assumes "pool_inv st fl" "i < JP_ALLOC_POOL_COUNT" "j < JP_ALLOC_POOL_COUNT"
    "x \<in> set (fl i)" "y \<in> set (fl j)" "(i, x) \<noteq> (j, y)"
  shows "disj x i y j"
  using assms unfolding pool_inv_def by blast

lemma disjD: "disj x i y j \<Longrightarrow> inblk a x i \<Longrightarrow> \<not> inblk a y j"
  by (auto simp: disj_def)

lemma disj_sym: "disj x i y j \<Longrightarrow> disj y j x i"
  by (auto simp: disj_def)

lemma pool_inv_frame:
  assumes inv: "pool_inv st fl"
    and hd: "\<And>i. i < JP_ALLOC_POOL_COUNT \<Longrightarrow> head st' i = head st i"
    and same: "\<And>i x a. i < JP_ALLOC_POOL_COUNT \<Longrightarrow> x \<in> set (fl i) \<Longrightarrow> inblk a x i
                 \<Longrightarrow> mem st' a = mem st a"
  shows "pool_inv st' fl"
  unfolding pool_inv_def
proof (intro conjI allI impI ballI)
  fix i assume i: "i < JP_ALLOC_POOL_COUNT"
  have "chain (mem st') (head st i) (fl i) = chain (mem st) (head st i) (fl i)"
  proof (rule chain_cong)
    fix x assume x: "x \<in> set (fl i)"
    have "4 \<le> i" by (rule pool_inv_node(4) [OF inv i x])
    then have "inblk (next_of x) x i" using i by (intro inblk_next pool_lt_64)
    then show "mem st' (next_of x) = mem st (next_of x)" by (rule same [OF i x])
  qed
  then show "chain (mem st') (head st' i) (fl i)"
    using pool_inv_chain [OF inv i] hd [OF i] by simp
  show "distinct (fl i)" by (rule pool_inv_distinct [OF inv i])
next
  fix i x assume i: "i < JP_ALLOC_POOL_COUNT" and x: "x \<in> set (fl i)"
  have "inblk x x i" using i by (intro inblk_self pool_lt_64)
  then have "mem st' x = mem st x" by (rule same [OF i x])
  then show "mem st' (size_of x) = Some (of_nat i)"
    using pool_inv_node(1) [OF inv i x] by (simp add: size_of_def)
  show "\<not> inblk 0 x i" by (rule pool_inv_node(2) [OF inv i x])
  fix a assume a: "inblk a x i"
  then have "mem st' a = mem st a" by (rule same [OF i x])
  then show "mem st' a \<noteq> None" using pool_inv_node(3) [OF inv i x a] by simp
next
  fix i :: nat assume "i < 4"
  then show "fl i = []" using inv unfolding pool_inv_def by blast
next
  fix i j x y
  assume "i < JP_ALLOC_POOL_COUNT" "j < JP_ALLOC_POOL_COUNT" "x \<in> set (fl i)" "y \<in> set (fl j)"
    "(i, x) \<noteq> (j, y)"
  then show "disj x i y j" by (rule pool_inv_disj [OF inv])
qed

lemma store_Some:
  "store st a v = Some st' \<longleftrightarrow> mem st a \<noteq> None \<and> st' = st\<lparr>mem := (mem st)(a \<mapsto> v)\<rparr>"
  by (auto simp: store_def split: option.splits)

lemma pool_inv_store:
  assumes inv: "pool_inv st fl" and st: "store st a v = Some st'"
    and out: "\<And>i x. i < JP_ALLOC_POOL_COUNT \<Longrightarrow> x \<in> set (fl i) \<Longrightarrow> \<not> inblk a x i"
  shows "pool_inv st' fl"
proof (rule pool_inv_frame [OF inv])
  from st have st': "st' = st\<lparr>mem := (mem st)(a \<mapsto> v)\<rparr>" by (simp add: store_Some)
  show "head st' i = head st i" for i by (simp add: st')
  show "mem st' b = mem st b"
    if "i < JP_ALLOC_POOL_COUNT" "x \<in> set (fl i)" "inblk b x i" for i x b
  proof -
    from out [OF that(1,2)] that(3) have "b \<noteq> a" by auto
    then show ?thesis by (simp add: st')
  qed
qed

lemma next_of_neq: "next_of x \<noteq> x"
  by (simp add: next_of_def)

lemma pool_inv_push:
  assumes inv: "pool_inv s fl" and p: "4 \<le> p" "p < JP_ALLOC_POOL_COUNT"
    and sz: "mem s (size_of x) = Some (of_nat p)"
    and nx: "mem s (next_of x) = Some (head s p)"
    and nz: "\<not> inblk 0 x p"
    and mp: "\<And>a. inblk a x p \<Longrightarrow> mem s a \<noteq> None"
    and dj: "\<And>j y. j < JP_ALLOC_POOL_COUNT \<Longrightarrow> y \<in> set (fl j) \<Longrightarrow> disj x p y j"
  shows "pool_inv (s\<lparr>head := (head s)(p := x)\<rparr>) (fl(p := x # fl p))"
  unfolding pool_inv_def
proof (intro conjI allI impI ballI)
  have p64: "p < 64" using p(2) by (rule pool_lt_64)
  have x0: "x \<noteq> 0" using nz inblk_self [OF p64, of x] by auto
  have xnew: "x \<notin> set (fl p)"
  proof
    assume "x \<in> set (fl p)"
    then have "disj x p x p" by (rule dj [OF p(2)])
    then show False using inblk_self [OF p64, of x] by (auto simp: disj_def)
  qed
  {
    fix i assume i: "i < JP_ALLOC_POOL_COUNT"
    show "chain (mem (s\<lparr>head := (head s)(p := x)\<rparr>)) (head (s\<lparr>head := (head s)(p := x)\<rparr>) i)
            ((fl(p := x # fl p)) i)"
      using pool_inv_chain [OF inv i] x0 nx by auto
    show "distinct ((fl(p := x # fl p)) i)"
      using pool_inv_distinct [OF inv i] xnew by auto
  }
  {
    fix i y assume i: "i < JP_ALLOC_POOL_COUNT" and y: "y \<in> set ((fl(p := x # fl p)) i)"
    have c: "(i = p \<and> y = x) \<or> y \<in> set (fl i)" using y by (auto split: if_splits)
    show "mem (s\<lparr>head := (head s)(p := x)\<rparr>) (size_of y) = Some (of_nat i)"
      using c sz pool_inv_node(1) [OF inv i] by auto
    show "\<not> inblk 0 y i" using c nz pool_inv_node(2) [OF inv i] by auto
    fix a assume "inblk a y i"
    then show "mem (s\<lparr>head := (head s)(p := x)\<rparr>) a \<noteq> None"
      using c mp pool_inv_node(3) [OF inv i] by auto
  }
  {
    fix i :: nat assume i: "i < 4"
    then have "fl i = []" using inv unfolding pool_inv_def by blast
    then show "(fl(p := x # fl p)) i = []" using i p(1) by simp
  }
  {
    fix i j y z
    assume i: "i < JP_ALLOC_POOL_COUNT" and j: "j < JP_ALLOC_POOL_COUNT"
      and y: "y \<in> set ((fl(p := x # fl p)) i)" and z: "z \<in> set ((fl(p := x # fl p)) j)"
      and ne: "(i, y) \<noteq> (j, z)"
    have cy: "(i = p \<and> y = x) \<or> y \<in> set (fl i)" using y by (auto split: if_splits)
    have cz: "(j = p \<and> z = x) \<or> z \<in> set (fl j)" using z by (auto split: if_splits)
    show "disj y i z j"
    proof (cases "i = p \<and> y = x")
      case True
      with ne cz have "z \<in> set (fl j)" by auto
      then show ?thesis using True dj [OF j] by simp
    next
      case False
      with cy have y': "y \<in> set (fl i)" by simp
      show ?thesis
      proof (cases "j = p \<and> z = x")
        case True
        then show ?thesis using dj [OF i y'] by (simp add: disj_sym)
      next
        case False
        with cz have "z \<in> set (fl j)" by simp
        then show ?thesis using pool_inv_disj [OF inv i j y' _ ne] by simp
      qed
    qed
  }
qed

lemma pool_inv_pop:
  assumes inv: "pool_inv s fl" and p: "4 \<le> p" "p < JP_ALLOC_POOL_COUNT"
    and fl: "fl p = x # xs" and nx: "mem s (next_of x) = Some n"
  shows "pool_inv (s\<lparr>head := (head s)(p := n)\<rparr>) (fl(p := xs))"
  unfolding pool_inv_def
proof (intro conjI allI impI ballI)
  have sub: "set ((fl(p := xs)) i) \<subseteq> set (fl i)" for i using fl by auto
  {
    fix i assume i: "i < JP_ALLOC_POOL_COUNT"
    show "chain (mem (s\<lparr>head := (head s)(p := n)\<rparr>)) (head (s\<lparr>head := (head s)(p := n)\<rparr>) i)
            ((fl(p := xs)) i)"
      using pool_inv_chain [OF inv i] pool_inv_chain [OF inv p(2)] fl nx by auto
    show "distinct ((fl(p := xs)) i)"
      using pool_inv_distinct [OF inv i] pool_inv_distinct [OF inv p(2)] fl by auto
  }
  {
    fix i y assume i: "i < JP_ALLOC_POOL_COUNT" and y: "y \<in> set ((fl(p := xs)) i)"
    then have y': "y \<in> set (fl i)" using sub by blast
    show "mem (s\<lparr>head := (head s)(p := n)\<rparr>) (size_of y) = Some (of_nat i)"
      using pool_inv_node(1) [OF inv i y'] by simp
    show "\<not> inblk 0 y i" by (rule pool_inv_node(2) [OF inv i y'])
    fix a assume "inblk a y i"
    then show "mem (s\<lparr>head := (head s)(p := n)\<rparr>) a \<noteq> None"
      using pool_inv_node(3) [OF inv i y'] by simp
  }
  {
    fix i :: nat assume i: "i < 4"
    then have "fl i = []" using inv unfolding pool_inv_def by blast
    then show "(fl(p := xs)) i = []" using i p(1) by simp
  }
  {
    fix i j y z
    assume i: "i < JP_ALLOC_POOL_COUNT" and j: "j < JP_ALLOC_POOL_COUNT"
      and y: "y \<in> set ((fl(p := xs)) i)" and z: "z \<in> set ((fl(p := xs)) j)"
      and ne: "(i, y) \<noteq> (j, z)"
    from y z have "y \<in> set (fl i)" "z \<in> set (fl j)" using sub by blast+
    then show "disj y i z j" by (rule pool_inv_disj [OF inv i j _ _ ne])
  }
qed

lemma chain_nonempty:
  assumes "chain m h xs" "h \<noteq> 0"
  obtains n ys where "xs = h # ys" "m (next_of h) = Some n" "chain m n ys"
  using assms by (cases xs) (auto split: option.splits)

lemma pool_get_pop_inv:
  assumes inv: "pool_inv st fl" and p: "4 \<le> p" "p < JP_ALLOC_POOL_COUNT"
    and ne: "head st p \<noteq> 0"
  shows "\<exists>st'. pool_get p st = Some (head st p, st')
           \<and> pool_inv st' (fl(p := tl (fl p)))
           \<and> live_block st' (fl(p := tl (fl p))) (head st p) p
           \<and> src st' = src st \<and> maps st' = maps st \<and> unmaps st' = unmaps st"
proof -
  define x where "x = head st p"
  have p64: "p < 64" using p(2) by (rule pool_lt_64)
  from pool_inv_chain [OF inv p(2)] ne obtain n xs
    where fl: "fl p = x # xs" and nx: "mem st (next_of x) = Some n"
    unfolding x_def by (rule chain_nonempty)
  define sb where "sb = st\<lparr>head := (head st)(p := n)\<rparr>"
  define st' where "st' = sb\<lparr>mem := (mem sb)(next_of x \<mapsto> x)\<rparr>"
  define fl' where "fl' = fl(p := xs)"
  have xin: "x \<in> set (fl p)" using fl by simp
  have invb: "pool_inv sb fl'" unfolding sb_def fl'_def using inv p fl nx by (rule pool_inv_pop)
  have stb: "store sb (next_of x) x = Some st'"
    using nx by (simp add: store_Some sb_def st'_def)
  have dj: "disj x p y j" if j: "j < JP_ALLOC_POOL_COUNT" and y: "y \<in> set (fl' j)" for j y
  proof -
    have y': "y \<in> set (fl j)" using y fl by (auto simp: fl'_def split: if_splits)
    have "(p, x) \<noteq> (j, y)"
    proof (cases "j = p")
      case True
      with y fl have "y \<in> set xs" by (simp add: fl'_def)
      moreover have "x \<notin> set xs" using pool_inv_distinct [OF inv p(2)] fl by simp
      ultimately show ?thesis by auto
    next
      case False then show ?thesis by simp
    qed
    then show ?thesis using pool_inv_disj [OF inv p(2) j xin y'] by simp
  qed
  have nxin: "inblk (next_of x) x p" using p(1) p64 by (rule inblk_next)
  have inv': "pool_inv st' fl'"
  proof (rule pool_inv_store [OF invb stb])
    fix j y assume "j < JP_ALLOC_POOL_COUNT" "y \<in> set (fl' j)"
    then have "disj x p y j" by (rule dj)
    then show "\<not> inblk (next_of x) y j" using nxin by (rule disjD)
  qed
  have live: "live_block st' fl' x p"
    unfolding live_block_def
  proof (intro conjI allI impI ballI)
    show "mem st' (size_of x) = Some (of_nat p)"
      using pool_inv_node(1) [OF inv p(2) xin] next_of_neq [of x]
      by (simp add: st'_def sb_def size_of_def)
    show "mem st' (next_of x) = Some x" by (simp add: st'_def)
    show "\<not> inblk 0 x p" by (rule pool_inv_node(2) [OF inv p(2) xin])
    show "mem st' a \<noteq> None" if "inblk a x p" for a
      using pool_inv_node(3) [OF inv p(2) xin that] by (simp add: st'_def sb_def)
    show "disj x p y j" if "j < JP_ALLOC_POOL_COUNT" "y \<in> set (fl' j)" for j y
      using that by (rule dj)
  qed
  have "pool_get p st = Some (x, st')"
    using nx stb unfolding x_def
    by (simp add: pool_get_nonempty [OF p(2) ne] load_def sb_def x_def)
  moreover have "tl (fl p) = xs" using fl by simp
  moreover have "src st' = src st \<and> maps st' = maps st \<and> unmaps st' = unmaps st"
    by (simp add: st'_def sb_def)
  ultimately show ?thesis using inv' live unfolding fl'_def x_def by auto
qed

lemma pool_get_terminal_fail:
  assumes "p = JP_ALLOC_POOL_COUNT - 1" "head st p = 0" "src st = [] \<or> hd (src st) = 0"
  shows "pool_get p st = Some (0, st\<lparr>src := tl (src st)\<rparr>)"
  using assms(2,3)
  by (cases "src st") (auto simp: pool_get_terminal [OF assms(1)] os_alloc_pages_def)

lemma pool_get_terminal_inv:
  assumes inv: "pool_inv st fl" and fresh: "fresh_src st fl"
    and K1d: "K1 = JP_ALLOC_POOL_COUNT - 1"
    and empty: "head st K1 = 0"
    and ok: "src st = a # rest" "a \<noteq> 0"
  shows "\<exists>st'. pool_get K1 st = Some (a, st')
           \<and> pool_inv st' fl \<and> live_block st' fl a K1
           \<and> src st' = rest \<and> maps st' = (a, 2 ^ K1) # maps st
           \<and> unmaps st' = unmaps st \<and> head st' = head st"
proof -
  have K1: "K1 < 64" "4 \<le> K1" "K1 < JP_ALLOC_POOL_COUNT"
    by (simp_all add: K1d JP_ALLOC_POOL_COUNT_def)
  define st1 where "st1 = st\<lparr>mem := (\<lambda>x. if inblk x a K1 then Some 0 else mem st x),
                      src := rest, maps := (a, 2 ^ K1) # maps st\<rparr>"
  define st' where "st' = st1\<lparr>mem := (mem st1)(size_of a \<mapsto> of_nat K1, next_of a \<mapsto> a)\<rparr>"
  have os: "os_alloc_pages (2 ^ K1) st = (a, st1)"
    using ok by (simp add: os_alloc_pages_def st1_def inblk_def)
  have ina: "inblk (size_of a) a K1" "inblk (next_of a) a K1"
    using K1 by (simp_all add: size_of_def inblk_self inblk_next)
  have s1: "store st1 (size_of a) (of_nat K1) = Some (st1\<lparr>mem := (mem st1)(size_of a \<mapsto> of_nat K1)\<rparr>)"
    using ina by (simp add: store_Some st1_def)
  have s2: "store (st1\<lparr>mem := (mem st1)(size_of a \<mapsto> of_nat K1)\<rparr>) (next_of a) a = Some st'"
    using ina by (simp add: store_Some st1_def st'_def)
  have pg: "pool_get K1 st = Some (a, st')"
    using empty ok(2) os s1 s2 by (simp add: pool_get_terminal [OF K1d])
  from fresh ok have nz: "\<not> inblk 0 a K1"
    and dj: "\<And>j y. j < JP_ALLOC_POOL_COUNT \<Longrightarrow> y \<in> set (fl j) \<Longrightarrow> disj a K1 y j"
    by (simp_all add: fresh_src_def K1d)
  have inv': "pool_inv st' fl"
  proof (rule pool_inv_frame [OF inv])
    show "head st' i = head st i" for i by (simp add: st'_def st1_def)
    fix i x b assume i: "i < JP_ALLOC_POOL_COUNT" and x: "x \<in> set (fl i)" and b: "inblk b x i"
    have "disj x i a K1" using dj [OF i x] by (rule disj_sym)
    then have nb: "\<not> inblk b a K1" using b by (rule disjD)
    with ina have "b \<noteq> size_of a" "b \<noteq> next_of a" by auto
    with nb show "mem st' b = mem st b" by (simp add: st'_def st1_def)
  qed
  have live: "live_block st' fl a K1"
    unfolding live_block_def
  proof (intro conjI allI impI ballI)
    show "mem st' (size_of a) = Some (of_nat K1)"
      using next_of_neq [of a] by (simp add: st'_def size_of_def)
    show "mem st' (next_of a) = Some a" by (simp add: st'_def)
    show "\<not> inblk 0 a K1" by (rule nz)
    show "mem st' b \<noteq> None" if "inblk b a K1" for b
      using that by (simp add: st'_def st1_def)
    show "disj a K1 y j" if "j < JP_ALLOC_POOL_COUNT" "y \<in> set (fl j)" for j y
      using that by (rule dj)
  qed
  have "src st' = rest \<and> maps st' = (a, 2 ^ K1) # maps st \<and> unmaps st' = unmaps st
        \<and> head st' = head st"
    by (simp add: st'_def st1_def)
  with pg inv' live show ?thesis by blast
qed

lemma pool_get_refill_null:
  assumes "p < JP_ALLOC_POOL_COUNT - 1" "head st p = 0" "pool_get (p + 1) st = Some (0, st1)"
  shows "pool_get p st = Some (0, st1)"
  using assms(3) by (simp add: pool_get_refill [OF assms(1,2)])

lemma of_nat_Suc_minus_1: "(of_nat (p + 1) :: 64 word) - 1 = of_nat p"
  by simp

lemma not_32_le_of_nat: "p < 32 \<Longrightarrow> \<not> (32 :: 64 word) \<le> of_nat p"
  by (simp add: word_le_nat_alt unat_of_nat)

lemma pool_get_split_inv:
  assumes p: "4 \<le> p" "p < JP_ALLOC_POOL_COUNT - 1"
    and empty: "head st p = 0"
    and rec: "pool_get (p + 1) st = Some (m, st1)" and m0: "m \<noteq> 0"
    and inv: "pool_inv st1 fl1" and live: "live_block st1 fl1 m (p + 1)"
  shows "\<exists>st'. pool_get p st = Some (m, st')
           \<and> pool_inv st' (fl1(p := (m + 2 ^ p) # fl1 p))
           \<and> live_block st' (fl1(p := (m + 2 ^ p) # fl1 p)) m p
           \<and> head st' = (head st1)(p := m + 2 ^ p)
           \<and> mem st' (size_of (m + 2 ^ p)) = Some (of_nat p)
           \<and> mem st' (next_of (m + 2 ^ p)) = Some (head st1 p)
           \<and> src st' = src st1 \<and> maps st' = maps st1 \<and> unmaps st' = unmaps st1"
proof -
  define spare where "spare = m + 2 ^ p"
  have pK: "p < JP_ALLOC_POOL_COUNT" "p < 63" "p < 64" "p + 1 < 64" "p < 32"
    using p(2) by (simp_all add: JP_ALLOC_POOL_COUNT_def)
  note lv = live [unfolded live_block_def]
  have msz: "mem st1 (size_of m) = Some (of_nat (p + 1))" using lv by simp
  have mapped1: "mem st1 a \<noteq> None" if "inblk a m (Suc p)" for a using lv that by simp
  have dj1: "disj m (Suc p) y j" if "j < JP_ALLOC_POOL_COUNT" "y \<in> set (fl1 j)" for j y
    using lv that by simp
  \<comment> \<open>where the four written words lie\<close>
  have in_m: "inblk (size_of m) m p" "inblk (next_of m) m p"
    using p(1) pK by (simp_all add: size_of_def inblk_self inblk_next)
  have in_s: "inblk (size_of spare) spare p" "inblk (next_of spare) spare p"
    using p(1) pK by (simp_all add: size_of_def inblk_self inblk_next)
  have up: "inblk a m (Suc p)" if "inblk a spare p" for a
    using that unfolding spare_def by (rule inblk_upper_half [OF pK(2)])
  have lo: "inblk a m (Suc p)" if "inblk a m p" for a
    using that by (rule inblk_lower_half [OF pK(2)])
  have halves: "\<not> inblk a spare p" if "inblk a m p" for a
    using that unfolding spare_def by (rule inblk_halves_disjoint [OF pK(2)])
  have ne: "size_of m \<noteq> size_of spare" "size_of m \<noteq> next_of spare" "size_of m \<noteq> next_of m"
    "size_of spare \<noteq> next_of spare" "size_of spare \<noteq> next_of m" "next_of spare \<noteq> next_of m"
    using halves [OF in_m(1)] halves [OF in_m(2)] in_s next_of_neq [of m] next_of_neq [of spare]
    by (auto simp: size_of_def)
  define memF where "memF = (mem st1)(size_of m \<mapsto> of_nat p, size_of spare \<mapsto> of_nat p,
                                        next_of spare \<mapsto> head st1 p, next_of m \<mapsto> m)"
  define sF where "sF = st1\<lparr>mem := memF\<rparr>"
  define st' where "st' = sF\<lparr>head := (head sF)(p := spare)\<rparr>"
  have mem_other: "memF b = mem st1 b" if "\<not> inblk b m (Suc p)" for b
  proof -
    from that lo [OF in_m(1)] lo [OF in_m(2)] up [OF in_s(1)] up [OF in_s(2)]
    have "b \<noteq> size_of m" "b \<noteq> next_of m" "b \<noteq> size_of spare" "b \<noteq> next_of spare" by auto
    then show ?thesis by (simp add: memF_def)
  qed
  have mem_mapped: "memF b \<noteq> None" if "mem st1 b \<noteq> None" for b
    using that by (simp add: memF_def)
  \<comment> \<open>the run of the code\<close>
  have run: "pool_get p st = Some (m, st')"
  proof -
    define s2 where "s2 = st1\<lparr>mem := (mem st1)(size_of m \<mapsto> of_nat p)\<rparr>"
    define s3 where "s3 = s2\<lparr>mem := (mem s2)(size_of spare \<mapsto> of_nat p)\<rparr>"
    define s4 where "s4 = s3\<lparr>mem := (mem s3)(next_of spare \<mapsto> head s3 p)\<rparr>"
    define s5 where "s5 = s4\<lparr>head := (head s4)(p := spare)\<rparr>"
    have a1: "store st1 (size_of m) (of_nat p) = Some s2"
      using mapped1 [OF lo [OF in_m(1)]] by (simp add: store_Some s2_def)
    have a2: "store s2 (size_of spare) (of_nat p) = Some s3"
      using mapped1 [OF up [OF in_s(1)]] by (simp add: store_Some s3_def s2_def)
    have a3: "store s3 (next_of spare) (head s3 p) = Some s4"
      using mapped1 [OF up [OF in_s(2)]] by (simp add: store_Some s4_def s3_def s2_def)
    have a4: "pool_put spare p s3 = Some s5"
      using a3 pK(1) by (simp add: pool_put_def s5_def)
    have a5: "store s5 (next_of m) m = Some (s5\<lparr>mem := (mem s5)(next_of m \<mapsto> m)\<rparr>)"
      using mapped1 [OF lo [OF in_m(2)]] by (simp add: store_Some s5_def s4_def s3_def s2_def)
    have fin: "s5\<lparr>mem := (mem s5)(next_of m \<mapsto> m)\<rparr> = st'"
      by (simp add: st'_def sF_def memF_def s5_def s4_def s3_def s2_def)
    show ?thesis
      using rec m0 msz a1 a2 a4 a5 fin not_32_le_of_nat [OF pK(5)]
      by (simp add: pool_get_refill [OF p(2) empty] load_def shl1U_of_nat [OF pK(5)]
          spare_def [symmetric])
  qed
  \<comment> \<open>the invariant\<close>
  have invF: "pool_inv sF fl1"
  proof (rule pool_inv_frame [OF inv])
    show "head sF i = head st1 i" for i by (simp add: sF_def)
    fix i x b assume i: "i < JP_ALLOC_POOL_COUNT" and x: "x \<in> set (fl1 i)" and b: "inblk b x i"
    have "disj x i m (Suc p)" using dj1 [OF i x] by (rule disj_sym)
    then have "\<not> inblk b m (Suc p)" using b by (rule disjD)
    then show "mem sF b = mem st1 b" by (simp add: sF_def mem_other)
  qed
  have sp_nz: "\<not> inblk 0 spare p" using lv up by auto
  have inv': "pool_inv st' (fl1(p := spare # fl1 p))"
    unfolding st'_def
  proof (rule pool_inv_push [OF invF p(1) pK(1)])
    show "mem sF (size_of spare) = Some (of_nat p)" using ne by (simp add: sF_def memF_def)
    show "mem sF (next_of spare) = Some (head sF p)" using ne by (simp add: sF_def memF_def)
    show "\<not> inblk 0 spare p" by (rule sp_nz)
    show "mem sF a \<noteq> None" if "inblk a spare p" for a
      using mapped1 [OF up [OF that]] by (simp add: sF_def mem_mapped)
    show "disj spare p y j" if "j < JP_ALLOC_POOL_COUNT" "y \<in> set (fl1 j)" for j y
      using dj1 [OF that] up by (auto simp: disj_def)
  qed
  have live': "live_block st' (fl1(p := spare # fl1 p)) m p"
    unfolding live_block_def
  proof (intro conjI allI impI ballI)
    show "mem st' (size_of m) = Some (of_nat p)" using ne by (simp add: st'_def sF_def memF_def)
    show "mem st' (next_of m) = Some m" by (simp add: st'_def sF_def memF_def)
    show "\<not> inblk 0 m p" using lv lo by auto
    show "mem st' a \<noteq> None" if "inblk a m p" for a
      using mapped1 [OF lo [OF that]] by (simp add: st'_def sF_def mem_mapped)
    show "disj m p y j" if j: "j < JP_ALLOC_POOL_COUNT" and y: "y \<in> set ((fl1(p := spare # fl1 p)) j)"
      for j y
    proof (cases "j = p \<and> y = spare")
      case True
      then show ?thesis using halves by (auto simp: disj_def)
    next
      case False
      with y have "y \<in> set (fl1 j)" by (auto split: if_splits)
      from dj1 [OF j this] lo show ?thesis by (auto simp: disj_def)
    qed
  qed
  have rest: "head st' = (head st1)(p := spare)
      \<and> mem st' (size_of spare) = Some (of_nat p)
      \<and> mem st' (next_of spare) = Some (head st1 p)
      \<and> src st' = src st1 \<and> maps st' = maps st1 \<and> unmaps st' = unmaps st1"
    using ne by (simp add: st'_def sF_def memF_def)
  from run inv' live' rest show ?thesis unfolding spare_def by blast
qed

lemma pool_inv_src_upd: "pool_inv st fl \<Longrightarrow> pool_inv (st\<lparr>src := s\<rparr>) fl"
  by (rule pool_inv_frame) simp_all

lemma pool_get_inv_aux:
  "n = JP_ALLOC_POOL_COUNT - 1 - p \<Longrightarrow> pool_inv st fl \<Longrightarrow> fresh_src st fl \<Longrightarrow> 4 \<le> p
   \<Longrightarrow> p < JP_ALLOC_POOL_COUNT
   \<Longrightarrow> \<exists>m st' fl'. pool_get p st = Some (m, st') \<and> pool_inv st' fl'
         \<and> (m \<noteq> 0 \<longrightarrow> live_block st' fl' m p)"
proof (induction n arbitrary: p)
  case 0
  then have pK: "p = JP_ALLOC_POOL_COUNT - 1" by simp
  show ?case
  proof (cases "head st p = 0")
    case False
    from pool_get_pop_inv [OF "0.prems"(2) "0.prems"(4,5) False] show ?thesis by blast
  next
    case True
    show ?thesis
    proof (cases "src st = [] \<or> hd (src st) = 0")
      case True
      with pool_get_terminal_fail [OF pK \<open>head st p = 0\<close>]
      have "pool_get p st = Some (0, st\<lparr>src := tl (src st)\<rparr>)" by simp
      moreover have "pool_inv (st\<lparr>src := tl (src st)\<rparr>) fl"
        using "0.prems"(2) by (rule pool_inv_src_upd)
      ultimately show ?thesis by blast
    next
      case False
      then obtain a rest where "src st = a # rest" "a \<noteq> 0" by (cases "src st") auto
      from pool_get_terminal_inv [OF "0.prems"(2,3) pK \<open>head st p = 0\<close> this]
      show ?thesis by blast
    qed
  qed
next
  case (Suc n)
  then have pK: "p < JP_ALLOC_POOL_COUNT - 1" by simp
  show ?case
  proof (cases "head st p = 0")
    case False
    from pool_get_pop_inv [OF Suc.prems(2) Suc.prems(4,5) False] show ?thesis by blast
  next
    case True
    have "n = JP_ALLOC_POOL_COUNT - 1 - (p + 1)" "4 \<le> p + 1" "p + 1 < JP_ALLOC_POOL_COUNT"
      using Suc.prems(1,4) pK by simp_all
    from Suc.IH [OF this(1) Suc.prems(2,3) this(2,3)]
    obtain m st1 fl1 where rec: "pool_get (p + 1) st = Some (m, st1)"
      and inv1: "pool_inv st1 fl1" and live1: "m \<noteq> 0 \<longrightarrow> live_block st1 fl1 m (p + 1)"
      by blast
    show ?thesis
    proof (cases "m = 0")
      case True
      with rec have "pool_get p st = Some (0, st1)"
        using pool_get_refill_null [OF pK \<open>head st p = 0\<close>] by simp
      with inv1 show ?thesis by blast
    next
      case False
      with live1 have "live_block st1 fl1 m (p + 1)" by simp
      from pool_get_split_inv [OF Suc.prems(4) pK \<open>head st p = 0\<close> rec False inv1 this]
      show ?thesis by blast
    qed
  qed
qed

lemma pool_get_inv:
  assumes "pool_inv st fl" "fresh_src st fl" "4 \<le> p" "p < JP_ALLOC_POOL_COUNT"
  shows "\<exists>m st' fl'. pool_get p st = Some (m, st') \<and> pool_inv st' fl'
           \<and> (m \<noteq> 0 \<longrightarrow> live_block st' fl' m p)"
  using pool_get_inv_aux [OF refl assms] .

lemma pool_inv_init: "pool_inv (init_state as) (\<lambda>i. [])"
  by (simp add: pool_inv_def init_state_def)

lemma fresh_src_init:
  "(as = [] \<or> hd as = 0 \<or> \<not> inblk 0 (hd as) (JP_ALLOC_POOL_COUNT - 1))
   \<Longrightarrow> fresh_src (init_state as) (\<lambda>i. [])"
  by (cases as) (auto simp: fresh_src_def init_state_def)

section \<open>Termination of \<open>pool_get\<close>\<close>

lemma pool_get_total: "pool_get_dom (p, st)"
proof -
  have "All pool_get_dom"
    by (rule "pool_get.termination" [of "measure (\<lambda>(p, st). JP_ALLOC_POOL_COUNT - p)"]) auto
  then show ?thesis by simp
qed

lemma pool_get_head_frame_aux:
  "n = JP_ALLOC_POOL_COUNT - p \<Longrightarrow> pool_get p st = Some (m, st') \<Longrightarrow> j < p
   \<Longrightarrow> head st' j = head st j"
proof (induction n arbitrary: p st m st')
  case 0
  then have "JP_ALLOC_POOL_COUNT \<le> p" by simp
  with "0.prems"(2) show ?case by (simp add: pool_get.simps [of p st])
next
  case (Suc n)
  then have pK: "p < JP_ALLOC_POOL_COUNT" by simp
  show ?case
  proof (cases "head st p = 0")
    case False
    with Suc.prems(2,3) show ?thesis
      by (auto simp: pool_get_nonempty [OF pK False] store_Some split: bind_splits)
  next
    case True
    show ?thesis
    proof (cases "p = JP_ALLOC_POOL_COUNT - 1")
      case True
      from Suc.prems(2,3) show ?thesis
        by (auto simp: pool_get_terminal [OF True \<open>head st p = 0\<close>] os_alloc_pages_def
            store_Some split: bind_splits prod.splits list.splits if_splits)
    next
      case False
      with pK have pK1: "p < JP_ALLOC_POOL_COUNT - 1" by simp
      from Suc.prems(2) obtain m1 st1 where rec: "pool_get (p + 1) st = Some (m1, st1)"
        by (auto simp: pool_get_refill [OF pK1 True] split: bind_splits)
      have "n = JP_ALLOC_POOL_COUNT - (p + 1)" using Suc.prems(1) by simp
      from Suc.IH [OF this rec] Suc.prems(3) have h1: "head st1 j = head st j" by simp
      from Suc.prems(2,3) rec have "head st' j = head st1 j"
        by (auto simp: pool_get_refill [OF pK1 True] store_Some pool_put_def
            split: bind_splits if_splits)
      with h1 show ?thesis by simp
    qed
  qed
qed

lemma pool_get_head_frame:
  "pool_get p st = Some (m, st') \<Longrightarrow> j < p \<Longrightarrow> head st' j = head st j"
  using pool_get_head_frame_aux [OF refl] .

section \<open>Mapped memory lies in granted spans\<close>


lemma grounded_head [simp]: "grounded (st\<lparr>head := h\<rparr>) = grounded st"
  by (simp add: grounded_def)















section \<open>Aligned allocation at alignment 0\<close>

lemma aligned_span_offset:
  fixes s :: "64 word"
  assumes "hs = 2 ^ j" "s AND (hs - 1) = 0"
  shows "(hs - (s + hs)) AND (hs - 1) AND (hs - 1) = 0"
proof -
  have "take_bit j s = 0" using assms by (simp add: take_bit_eq_mask mask_eq_exp_minus_1)
  then have "2 ^ j dvd s" by (simp only: take_bit_eq_0_iff)
  then have "2 ^ j dvd - s" by simp
  then have "take_bit j (- s) = 0" by (simp only: take_bit_eq_0_iff)
  then have "(- s) AND (hs - 1) = 0" using assms(1) by (simp add: take_bit_eq_mask mask_eq_exp_minus_1)
  moreover have "hs - (s + hs) = - s" by simp
  ultimately show ?thesis by (simp add: and.assoc)
qed

lemma jp_alloc_aligned_zero_succeeds:
  assumes hs: "hs = 2 ^ j" and src: "src st = s # rest" and s0: "s \<noteq> 0"
    and al: "s AND (hs - 1) = 0" and big: "8 < round_pages ps (n + hs)"
  shows "\<exists>st'. jp_alloc_aligned ps hs 0 n st = Some (s + hs, st') \<and> mem st' s = Some (n + hs)"
proof -
  define r where "r = round_pages ps (n + hs)"
  define st1 where "st1 = st\<lparr>mem := (\<lambda>x. if x - s < r then Some 0 else mem st x),
                      src := rest, maps := (s, r) # maps st\<rparr>"
  have os: "os_alloc_pages r st = (s, st1)" using src s0 by (simp add: os_alloc_pages_def st1_def)
  have off: "(hs - (s + hs)) AND (hs - 1) AND (hs - 1) = 0" using hs al by (rule aligned_span_offset)
  have ap: "alloc_pages_aligned ps hs 0 (n + hs) st = (s, st1)"
    using os s0 off
    by (simp add: alloc_pages_aligned_def is_pow2_def Let_def r_def [symmetric] not_less [symmetric]
        word_gt_0 and.assoc)
  have r8: "8 < r" using big by (simp add: r_def)
  then have "unat r \<noteq> 0" by (simp add: word_less_nat_alt)
  then have "0 < r" by (simp add: word_gt_0 unat_eq_0)
  note r0 = this r8
  have s1: "store st1 (size_of s) (n + hs) = Some (st1\<lparr>mem := (mem st1)(s \<mapsto> n + hs)\<rparr>)"
    using r0 by (simp add: store_Some st1_def size_of_def)
  have s2: "store (st1\<lparr>mem := (mem st1)(s \<mapsto> n + hs)\<rparr>) (next_of s) s
            = Some (st1\<lparr>mem := (mem st1)(s \<mapsto> n + hs, next_of s \<mapsto> s)\<rparr>)"
    using r0 by (simp add: store_Some st1_def next_of_def)
  have "jp_alloc_aligned ps hs 0 n st
        = Some (s + hs, st1\<lparr>mem := (mem st1)(s \<mapsto> n + hs, next_of s \<mapsto> s)\<rparr>)"
    using ap s0 s1 s2 by (simp add: jp_alloc_aligned_def Let_def)
  moreover have "mem (st1\<lparr>mem := (mem st1)(s \<mapsto> n + hs, next_of s \<mapsto> s)\<rparr>) s = Some (n + hs)"
    using next_of_neq [of s] by simp
  ultimately show ?thesis by blast
qed

section \<open>Headers of returned blocks\<close>





lemma jp_alloc_pool_header:
  assumes inv: "pool_inv st fl" "fresh_src st fl"
    and pid: "4 \<le> unat (pool_id (n + hs))" "unat (pool_id (n + hs)) < JP_ALLOC_POOL_COUNT"
  shows "\<exists>m st' fl'. jp_alloc ps hs n st = Some (m + hs, st') \<and> pool_inv st' fl'
           \<and> (m \<noteq> 0 \<longrightarrow> live_block st' fl' m (unat (pool_id (n + hs))))"
proof -
  from pool_get_inv [OF inv pid] obtain m st' fl'
    where "pool_get (unat (pool_id (n + hs))) st = Some (m, st')" "pool_inv st' fl'"
      "m \<noteq> 0 \<longrightarrow> live_block st' fl' m (unat (pool_id (n + hs)))"
    by blast
  moreover from this(1) pid(2) have "jp_alloc ps hs n st = Some (m + hs, st')"
    by (simp add: jp_alloc_def Let_def)
  ultimately show ?thesis by blast
qed

lemma one_block_run: "jp_alloc 4096 32 1 (init_state [65536]) = Some (65568, one_block_state)"
proof -
  have "map_option fst (jp_alloc 4096 32 1 (init_state [65536])) = Some 65568" by code_simp
  then show ?thesis by (auto simp: one_block_state_def)
qed



section \<open>Refilling an empty pool\<close>

lemma pool_get_terminal_fresh:
  assumes pK: "p = JP_ALLOC_POOL_COUNT - 1" and empty: "head st p = 0"
    and ok: "src st = a # rest" "a \<noteq> 0"
  shows "\<exists>st'. pool_get p st = Some (a, st')
           \<and> mem st' (size_of a) = Some (of_nat p) \<and> mem st' (next_of a) = Some a
           \<and> head st' = head st \<and> maps st' = (a, 2 ^ p) # maps st \<and> src st' = rest
           \<and> unmaps st' = unmaps st"
proof -
  have p: "p < 64" "4 \<le> p" using pK by (simp_all add: JP_ALLOC_POOL_COUNT_def)
  define st1 where "st1 = st\<lparr>mem := (\<lambda>x. if inblk x a p then Some 0 else mem st x),
                      src := rest, maps := (a, 2 ^ p) # maps st\<rparr>"
  define st' where "st' = st1\<lparr>mem := (mem st1)(size_of a \<mapsto> of_nat p, next_of a \<mapsto> a)\<rparr>"
  have os: "os_alloc_pages (2 ^ p) st = (a, st1)"
    using ok by (simp add: os_alloc_pages_def st1_def inblk_def)
  have ina: "inblk (size_of a) a p" "inblk (next_of a) a p"
    using p by (simp_all add: size_of_def inblk_self inblk_next)
  have s1: "store st1 (size_of a) (of_nat p) = Some (st1\<lparr>mem := (mem st1)(size_of a \<mapsto> of_nat p)\<rparr>)"
    using ina by (simp add: store_Some st1_def)
  have s2: "store (st1\<lparr>mem := (mem st1)(size_of a \<mapsto> of_nat p)\<rparr>) (next_of a) a = Some st'"
    using ina by (simp add: store_Some st1_def st'_def)
  have "pool_get p st = Some (a, st')"
    using empty ok(2) os s1 s2 by (simp add: pool_get_terminal [OF pK])
  moreover have "mem st' (size_of a) = Some (of_nat p) \<and> mem st' (next_of a) = Some a
      \<and> head st' = head st \<and> maps st' = (a, 2 ^ p) # maps st \<and> src st' = rest
      \<and> unmaps st' = unmaps st"
    using next_of_neq [of a] by (simp add: st'_def st1_def size_of_def)
  ultimately show ?thesis by blast
qed

lemma pool_get_refill_steps:
  assumes p: "p < JP_ALLOC_POOL_COUNT - 1" and empty: "head st p = 0"
    and rec: "pool_get (p + 1) st = Some (m, st1)" and m0: "m \<noteq> 0"
    and sz: "mem st1 (size_of m) = Some (of_nat (p + 1))"
  shows "pool_get p st =
           do {
             st2 \<leftarrow> store st1 (size_of m) (of_nat p);
             st3 \<leftarrow> store st2 (size_of (m + 2 ^ p)) (of_nat p);
             st4 \<leftarrow> pool_put (m + 2 ^ p) p st3;
             st5 \<leftarrow> store st4 (next_of m) m;
             Some (m, st5)
           }"
proof -
  have p32: "p < 32" using p by (simp add: JP_ALLOC_POOL_COUNT_def)
  show ?thesis
    using rec m0 sz not_32_le_of_nat [OF p32]
    by (simp add: pool_get_refill [OF p empty] load_def shl1U_of_nat [OF p32])
qed

lemma chain_null: "chain m 0 xs \<Longrightarrow> xs = []"
  by (cases xs) auto

lemma pool_get_split_post:
  assumes inv: "pool_inv st fl" "fresh_src st fl"
    and p: "4 \<le> p" "p < JP_ALLOC_POOL_COUNT - 1" and empty: "head st p = 0"
  shows "\<exists>m st'. pool_get p st = Some (m, st')
           \<and> (m \<noteq> 0 \<longrightarrow>
                (\<exists>st1. pool_get (p + 1) st = Some (m, st1)
                        \<and> mem st1 (size_of m) = Some (of_nat (p + 1)))
              \<and> mem st' (size_of m) = Some (of_nat p)
              \<and> mem st' (size_of (m + 2 ^ p)) = Some (of_nat p)
              \<and> mem st' (next_of (m + 2 ^ p)) = Some 0
              \<and> mem st' (next_of m) = Some m
              \<and> head st' p = m + 2 ^ p \<and> m + 2 ^ p \<noteq> m
              \<and> (\<exists>fl'. pool_inv st' fl' \<and> fl' p = [m + 2 ^ p]
                        \<and> (\<forall>j<JP_ALLOC_POOL_COUNT. m \<notin> set (fl' j))))"
proof -
  have p1: "4 \<le> p + 1" "p + 1 < JP_ALLOC_POOL_COUNT" "p < JP_ALLOC_POOL_COUNT" "p < 64"
    using p by (simp_all add: JP_ALLOC_POOL_COUNT_def)
  from pool_get_inv [OF inv p1(1,2)] obtain m st1 fl1
    where rec: "pool_get (p + 1) st = Some (m, st1)" and inv1: "pool_inv st1 fl1"
      and live1: "m \<noteq> 0 \<longrightarrow> live_block st1 fl1 m (p + 1)"
    by blast
  show ?thesis
  proof (cases "m = 0")
    case True
    with rec have "pool_get p st = Some (0, st1)"
      using pool_get_refill_null [OF p(2) empty] by simp
    then show ?thesis by blast
  next
    case False
    with live1 have live: "live_block st1 fl1 m (p + 1)" by simp
    from pool_get_split_inv [OF p empty rec False inv1 live] obtain st'
      where run: "pool_get p st = Some (m, st')"
        and inv': "pool_inv st' (fl1(p := (m + 2 ^ p) # fl1 p))"
        and live': "live_block st' (fl1(p := (m + 2 ^ p) # fl1 p)) m p"
        and hd: "head st' = (head st1)(p := m + 2 ^ p)"
        and sp: "mem st' (size_of (m + 2 ^ p)) = Some (of_nat p)"
          "mem st' (next_of (m + 2 ^ p)) = Some (head st1 p)"
      by blast
    have h1: "head st1 p = 0" using pool_get_head_frame [OF rec, of p] empty by simp
    with pool_inv_chain [OF inv1 p1(3)] have fl1p: "fl1 p = []" by (simp add: chain_null)
    define fl' where "fl' = fl1(p := (m + 2 ^ p) # fl1 p)"
    have notin: "m \<notin> set (fl' j)" if j: "j < JP_ALLOC_POOL_COUNT" for j
    proof
      assume "m \<in> set (fl' j)"
      with live' j have "disj m p m j" by (simp add: live_block_def fl'_def)
      moreover have "inblk m m p" "inblk m m j" using p1(4) j by (simp_all add: inblk_self pool_lt_64)
      ultimately show False by (auto simp: disj_def)
    qed
    have ne: "m + 2 ^ p \<noteq> m"
    proof
      assume "m + 2 ^ p = m"
      then have "m \<in> set (fl' p)" by (simp add: fl'_def)
      with notin [OF p1(3)] show False by simp
    qed
    have "mem st' (size_of m) = Some (of_nat p)" "mem st' (next_of m) = Some m"
      using live' by (simp_all add: live_block_def)
    moreover have "mem st1 (size_of m) = Some (of_nat (p + 1))" using live by (simp add: live_block_def)
    moreover have "pool_inv st' fl' \<and> fl' p = [m + 2 ^ p] \<and> (\<forall>j<JP_ALLOC_POOL_COUNT. m \<notin> set (fl' j))"
      using inv' fl1p notin by (simp add: fl'_def)
    ultimately show ?thesis using run rec sp h1 hd ne by auto
  qed
qed

section \<open>Outcomes of \<open>pool_get\<close>\<close>

lemma pool_get_outcomes:
  assumes "pool_get p st = Some (m, st')"
  shows "p < JP_ALLOC_POOL_COUNT
         \<and> (m = 0
            \<or> (head st p \<noteq> 0 \<and> m = head st p)
            \<or> (head st p = 0 \<and> p = JP_ALLOC_POOL_COUNT - 1 \<and> src st = m # src st'
                 \<and> maps st' = (m, 2 ^ (JP_ALLOC_POOL_COUNT - 1)) # maps st)
            \<or> (head st p = 0 \<and> p < JP_ALLOC_POOL_COUNT - 1
                 \<and> (\<exists>st1 sz0. pool_get (p + 1) st = Some (m, st1) \<and> mem st1 (size_of m) = Some sz0
                        \<and> head st' p = m + shl1U (sz0 - 1))))"
proof -
  have pK: "p < JP_ALLOC_POOL_COUNT"
  proof (rule ccontr)
    assume "\<not> p < JP_ALLOC_POOL_COUNT"
    with assms show False by (simp add: pool_get.simps [of p st])
  qed
  show ?thesis
  proof (cases "head st p = 0")
    case False
    with assms have "m = head st p"
      by (auto simp: pool_get_nonempty [OF pK False] split: bind_splits)
    with False pK show ?thesis by simp
  next
    case True
    show ?thesis
    proof (cases "p = JP_ALLOC_POOL_COUNT - 1")
      case pT: True
      from assms have "m = 0 \<or> (src st = m # src st' \<and> maps st' = (m, 2 ^ p) # maps st)"
        by (auto simp: pool_get_terminal [OF pT True] os_alloc_pages_def store_Some
            split: bind_splits prod.splits list.splits if_splits)
      with True pT pK show ?thesis by auto
    next
      case False
      with pK have pK1: "p < JP_ALLOC_POOL_COUNT - 1" by simp
      from assms have "m = 0 \<or> (\<exists>st1 sz0. pool_get (p + 1) st = Some (m, st1)
            \<and> mem st1 (size_of m) = Some sz0 \<and> head st' p = m + shl1U (sz0 - 1))"
        by (auto simp: pool_get_refill [OF pK1 True] store_Some pool_put_def load_def
            split: bind_splits if_splits)
      with True pK1 pK show ?thesis by auto
    qed
  qed
qed

lemma pool_get_null_chain_aux:
  "n = JP_ALLOC_POOL_COUNT - 1 - p \<Longrightarrow> p < JP_ALLOC_POOL_COUNT
   \<Longrightarrow> (\<forall>q. p \<le> q \<and> q < JP_ALLOC_POOL_COUNT \<longrightarrow> head st q = 0)
   \<Longrightarrow> src st = [] \<or> hd (src st) = 0
   \<Longrightarrow> pool_get p st = Some (0, st\<lparr>src := tl (src st)\<rparr>)"
proof (induction n arbitrary: p)
  case 0
  then have pT: "p = JP_ALLOC_POOL_COUNT - 1" by simp
  from "0.prems"(2,3) have "head st p = 0" by simp
  from pool_get_terminal_fail [OF pT this "0.prems"(4)] show ?case .
next
  case (Suc n)
  then have pK1: "p < JP_ALLOC_POOL_COUNT - 1" by simp
  from Suc.prems(2,3) have e: "head st p = 0" by simp
  have "n = JP_ALLOC_POOL_COUNT - 1 - (p + 1)" "p + 1 < JP_ALLOC_POOL_COUNT"
    "\<forall>q. p + 1 \<le> q \<and> q < JP_ALLOC_POOL_COUNT \<longrightarrow> head st q = 0"
    using Suc.prems(1,3) pK1 by simp_all
  from Suc.IH [OF this Suc.prems(4)]
  have "pool_get (p + 1) st = Some (0, st\<lparr>src := tl (src st)\<rparr>)" .
  then show ?case by (rule pool_get_refill_null [OF pK1 e])
qed

lemma pool_get_null_chain:
  assumes "p < JP_ALLOC_POOL_COUNT"
    "\<forall>q. p \<le> q \<and> q < JP_ALLOC_POOL_COUNT \<longrightarrow> head st q = 0" "src st = [] \<or> hd (src st) = 0"
  shows "pool_get p st = Some (0, st\<lparr>src := tl (src st)\<rparr>)"
  using pool_get_null_chain_aux [OF refl assms] .

section \<open>Sizes of directly mapped blocks\<close>



section \<open>Claims\<close>

text \<open>
  C1. For every power-of-two alignment \<open>a\<close> and every size \<open>n\<close>, the pointer that
  \<open>jp_alloc_aligned(a, n)\<close> returns is a multiple of \<open>a\<close>, whatever address the page
  source answered with (\<open>sizeof(header)\<close> being a power of two itself). The offset of
  line 179 parses as \<open>((alignment - x) & (alignment - 1)) & (alignment - 1)\<close>, which is
  \<open>-x mod alignment\<close>.
\<close>

theorem jp_alloc_aligned_is_aligned:
  assumes "a = 2 ^ k" "k < 64" "hs = 2 ^ j" "j < 64"
    and "jp_alloc_aligned ps hs a n st = Some (p, st')"
  shows "unat p mod unat a = 0"
proof -
  have ua: "unat a = 2 ^ k" using assms(1,2) by (simp add: unat_pow2)
  have uh: "unat hs = 2 ^ j" using assms(3,4) by (simp add: unat_pow2)
  define e where "e = (if ps < a \<or> hs < a then a else hs)"
  from jp_alloc_aligned_ptr [OF assms(5)]
  consider "p = 0" | X where "p = X + ((e - X) AND (e - 1) AND (e - 1))"
    unfolding e_def by blast
  then show ?thesis
  proof cases
    case 1
    then show ?thesis by simp
  next
    case 2
    show ?thesis
    proof (cases "ps < a \<or> hs < a")
      case True
      then have "e = 2 ^ k" using assms(1) by (simp add: e_def)
      with 2 have "take_bit k p = 0" by (simp only: align_offset_word)
      then show ?thesis unfolding ua by (rule take_bit_word_0_mod) simp
    next
      case False
      then have e: "e = 2 ^ j" using assms(3) by (simp add: e_def)
      from False have "a \<le> hs" by (simp add: not_less)
      then have "unat a \<le> unat hs" by (simp add: word_le_nat_alt)
      then have "(2::nat) ^ k \<le> 2 ^ j" using ua uh by simp
      then have kj: "k \<le> j" by simp
      from 2 e have "take_bit j p = 0" by (simp only: align_offset_word)
      then show ?thesis unfolding ua using kj by (rule take_bit_word_0_mod)
    qed
  qed
qed

theorem jp_alloc_aligned_is_aligned_witness:
  "map_option fst (jp_alloc_aligned 4096 32 16384 100 (init_state [77824])) = Some 81920
   \<and> unat (81920 :: 64 word) mod unat (16384 :: 64 word) = 0"
proof -
  have v: "map_option fst (jp_alloc_aligned 4096 32 16384 100 (init_state [77824])) = Some 81920"
    by code_simp
  then obtain st' where r: "jp_alloc_aligned 4096 32 16384 100 (init_state [77824]) = Some (81920, st')"
    by auto
  have "(16384 :: 64 word) = 2 ^ 14" "(14::nat) < 64" "(32 :: 64 word) = 2 ^ 5" "(5::nat) < 64"
    by simp_all
  from jp_alloc_aligned_is_aligned [OF this r] v show ?thesis by simp
qed

text \<open>
  C2 fails on the code: \<open>jp_good_size\<close> does not add \<open>sizeof(header)\<close> before it picks
  the class, as \<open>jp_alloc\<close> does. For a request of 1 byte it answers \<open>1 - 32\<close> (wrapped),
  while the block \<open>jp_alloc(1)\<close> returns has 32 usable bytes.
\<close>

theorem jp_good_size_differs:
  "jp_good_size 4096 32 1 = 18446744073709551585
   \<and> (case jp_alloc 4096 32 1 (init_state [65536]) of
        None \<Rightarrow> None | Some (p, st) \<Rightarrow> malloc_usable_size 32 p st) = Some 32"
  by code_simp

text \<open>
  C3 fails on the code: for a directly mapped block \<open>jp_free\<close> hands
  \<open>h + (p & (ps - 1))\<close> and \<open>size + (p & (ps - 1))\<close> to the page source. For the block
  of \<open>jp_alloc(40000)\<close>, mapped at 1048576 with 40960 bytes, it releases 40992 bytes from
  1048608.
\<close>

theorem jp_free_direct_releases_wrong_region:
  "(case jp_alloc 4096 32 40000 (init_state [1048576]) of
      None \<Rightarrow> None
    | Some (p, st) \<Rightarrow> map_option (\<lambda>st'. (p, maps st, unmaps st')) (jp_free 4096 32 p st))
   = Some (1048608, [(1048576, 40960)], [(1048608, 40992)])"
  by code_simp




text \<open>
  C5. \<open>pool_id g\<close> is the least \<open>i\<close> with \<open>g \<le> 2 ^ i\<close>, for every \<open>g \<ge> 1\<close>. For
  \<open>n \<ge> 1\<close> and \<open>i < K\<close> with \<open>2 ^ (i - 1) < n + sizeof(header) \<le> 2 ^ i\<close>,
  \<open>jp_alloc(n)\<close> selects class \<open>i\<close>: it is \<open>pool_get\<close> on pool \<open>i\<close> followed by the
  step over the header; when pool \<open>i\<close> is not empty the block returned is its head; and
  for \<open>4 \<le> i\<close>, with the pools in their invariant, the call returns and the header of the
  block it returns stores \<open>i\<close>.
\<close>

theorem jp_alloc_class_selection:
  "(g \<noteq> 0 \<longrightarrow>
      unat g \<le> 2 ^ unat (pool_id g) \<and> (\<forall>j. unat g \<le> 2 ^ j \<longrightarrow> unat (pool_id g) \<le> j))
   \<and> (1 \<le> unat n \<and> i < JP_ALLOC_POOL_COUNT
        \<and> 2 ^ i < 2 * (unat n + unat hs) \<and> unat n + unat hs \<le> 2 ^ i \<longrightarrow>
      unat (pool_id (n + hs)) = i
      \<and> jp_alloc ps hs n st = (pool_get i st \<bind> (\<lambda>(m, st'). Some (m + hs, st')))
      \<and> (\<forall>q st'. head st i \<noteq> 0 \<and> jp_alloc ps hs n st = Some (q, st') \<longrightarrow> q = head st i + hs)
      \<and> (pool_inv st fl \<and> fresh_src st fl \<and> 4 \<le> i \<longrightarrow>
           (\<exists>q st'. jp_alloc ps hs n st = Some (q, st')
              \<and> (q \<noteq> hs \<longrightarrow> mem st' (q - hs) = Some (of_nat i)))))"
proof -
  have c1: "g \<noteq> 0 \<longrightarrow>
      unat g \<le> 2 ^ unat (pool_id g) \<and> (\<forall>j. unat g \<le> 2 ^ j \<longrightarrow> unat (pool_id g) \<le> j)"
  proof (intro impI conjI allI)
    assume "g \<noteq> 0"
    then show "unat g \<le> 2 ^ unat (pool_id g)" by (rule pool_id_ceil_log2(1))
  next
    fix j assume "g \<noteq> 0" "unat g \<le> 2 ^ j"
    then show "unat (pool_id g) \<le> j" by (rule pool_id_ceil_log2(2))
  qed
  have c2: "1 \<le> unat n \<and> i < JP_ALLOC_POOL_COUNT
        \<and> 2 ^ i < 2 * (unat n + unat hs) \<and> unat n + unat hs \<le> 2 ^ i \<longrightarrow>
      unat (pool_id (n + hs)) = i
      \<and> jp_alloc ps hs n st = (pool_get i st \<bind> (\<lambda>(m, st'). Some (m + hs, st')))
      \<and> (\<forall>q st'. head st i \<noteq> 0 \<and> jp_alloc ps hs n st = Some (q, st') \<longrightarrow> q = head st i + hs)
      \<and> (pool_inv st fl \<and> fresh_src st fl \<and> 4 \<le> i \<longrightarrow>
           (\<exists>q st'. jp_alloc ps hs n st = Some (q, st')
              \<and> (q \<noteq> hs \<longrightarrow> mem st' (q - hs) = Some (of_nat i))))"
  proof (intro impI conjI allI)
    assume h: "1 \<le> unat n \<and> i < JP_ALLOC_POOL_COUNT
        \<and> 2 ^ i < 2 * (unat n + unat hs) \<and> unat n + unat hs \<le> 2 ^ i"
    then have iK: "i < JP_ALLOC_POOL_COUNT" by blast
    have "(2::nat) ^ i \<le> 2 ^ 15"
      using iK by (intro power_increasing) (simp_all add: JP_ALLOC_POOL_COUNT_def)
    with h have "unat n + unat hs < 2 ^ LENGTH(64)" by simp
    then have u: "unat (n + hs) = unat n + unat hs" by (rule unat_add_lem [THEN iffD1])
    with h show pid: "unat (pool_id (n + hs)) = i" by (intro pool_id_eqI) simp_all
    with iK show eq: "jp_alloc ps hs n st = (pool_get i st \<bind> (\<lambda>(m, st'). Some (m + hs, st')))"
      by (simp add: jp_alloc_def Let_def)
    {
      fix q st'
      assume "head st i \<noteq> 0 \<and> jp_alloc ps hs n st = Some (q, st')"
      with eq show "q = head st i + hs"
        by (auto split: bind_splits dest: pool_get_pop)
    }
    assume "pool_inv st fl \<and> fresh_src st fl \<and> 4 \<le> i"
    then have i: "pool_inv st fl" "fresh_src st fl" "4 \<le> unat (pool_id (n + hs))"
      "unat (pool_id (n + hs)) < JP_ALLOC_POOL_COUNT"
      using pid iK by simp_all
    from jp_alloc_pool_header [OF i, of ps] obtain m st' fl'
      where r: "jp_alloc ps hs n st = Some (m + hs, st')"
        and l: "m \<noteq> 0 \<longrightarrow> live_block st' fl' m (unat (pool_id (n + hs)))"
      by blast
    have "m + hs \<noteq> hs \<longrightarrow> mem st' (m + hs - hs) = Some (of_nat i)"
      using l pid by (auto simp: live_block_def size_of_def)
    with r show "\<exists>q st'. jp_alloc ps hs n st = Some (q, st')
              \<and> (q \<noteq> hs \<longrightarrow> mem st' (q - hs) = Some (of_nat i))"
      by blast
  qed
  from c1 c2 show ?thesis by (intro conjI)
qed

theorem jp_alloc_class_selection_witness:
  "unat (33 :: 64 word) \<le> 2 ^ unat (pool_id 33) \<and> unat (pool_id 33) \<le> 6
   \<and> unat (pool_id (1 + 32)) = 6
   \<and> jp_alloc 4096 32 1 one_block_state
       = (pool_get 6 one_block_state \<bind> (\<lambda>(m, st'). Some (m + 32, st')))
   \<and> head one_block_state 6 = 65600
   \<and> map_option fst (jp_alloc 4096 32 1 one_block_state) = Some (65600 + 32)
   \<and> (\<exists>st'. jp_alloc 4096 32 1 (init_state [65536]) = Some (65568, st')
          \<and> mem st' 65536 = Some 6)"
proof -
  note T = jp_alloc_class_selection [where g = 33 and n = 1 and i = 6 and hs = 32 and ps = 4096]
  have g: "(33 :: 64 word) \<noteq> 0" by simp
  have j: "unat (33 :: 64 word) \<le> 2 ^ 6" by simp
  note G = T [THEN conjunct1, rule_format, OF g]
  have w1: "unat (33 :: 64 word) \<le> 2 ^ unat (pool_id 33)" by (rule G [THEN conjunct1])
  have w2: "unat (pool_id 33) \<le> 6" by (rule G [THEN conjunct2, rule_format, OF j])
  have pre: "1 \<le> unat (1 :: 64 word) \<and> 6 < JP_ALLOC_POOL_COUNT
      \<and> 2 ^ 6 < 2 * (unat (1 :: 64 word) + unat (32 :: 64 word))
      \<and> unat (1 :: 64 word) + unat (32 :: 64 word) \<le> 2 ^ 6"
    by (simp add: JP_ALLOC_POOL_COUNT_def)
  note S = T [where st = one_block_state, THEN conjunct2, rule_format, OF pre]
  have w3: "unat (pool_id (1 + 32)) = 6" by (rule S [THEN conjunct1])
  have w4: "jp_alloc 4096 32 1 one_block_state
       = (pool_get 6 one_block_state \<bind> (\<lambda>(m, st'). Some (m + 32, st')))"
    by (rule S [THEN conjunct2, THEN conjunct1])
  have hd: "head one_block_state 6 = 65600" by code_simp
  have "map_option fst (jp_alloc 4096 32 1 one_block_state) = Some 65632" by code_simp
  then obtain s' where r: "jp_alloc 4096 32 1 one_block_state = Some (65632, s')" by auto
  have pre5: "head one_block_state 6 \<noteq> 0 \<and> jp_alloc 4096 32 1 one_block_state = Some (65632, s')"
    using hd r by simp
  have "(65632 :: 64 word) = head one_block_state 6 + 32"
    by (rule S [THEN conjunct2, THEN conjunct2, THEN conjunct1, rule_format, OF pre5])
  with r have w5: "map_option fst (jp_alloc 4096 32 1 one_block_state) = Some (65600 + 32)"
    by simp
  note I = T [where st = "init_state [65536]" and fl = "\<lambda>i. []", THEN conjunct2, rule_format,
      OF pre, THEN conjunct2, THEN conjunct2, THEN conjunct2, rule_format]
  have inv: "pool_inv (init_state [65536]) (\<lambda>i. [])" by (rule pool_inv_init)
  have fr: "fresh_src (init_state [65536]) (\<lambda>i. [])"
    by (rule fresh_src_init) (simp add: inblk_def JP_ALLOC_POOL_COUNT_def)
  have pre6: "pool_inv (init_state [65536]) (\<lambda>i. []) \<and> fresh_src (init_state [65536]) (\<lambda>i. [])
      \<and> 4 \<le> (6::nat)"
    using inv fr by simp
  from I [OF pre6] obtain q st' where a: "jp_alloc 4096 32 1 (init_state [65536]) = Some (q, st')"
    "q \<noteq> 32 \<longrightarrow> mem st' (q - 32) = Some (of_nat 6)"
    by blast
  from a(1) one_block_run have "q = 65568" by simp
  with a have w6: "\<exists>st'. jp_alloc 4096 32 1 (init_state [65536]) = Some (65568, st')
      \<and> mem st' 65536 = Some 6"
    by auto
  from w1 w2 w3 w4 hd w5 w6 show ?thesis by (intro conjI)
qed

text \<open>
  C6. \<open>pool_get\<close> on an empty pool \<open>i\<close>.
  \<^item> \<open>i = K - 1\<close>, the page source granting \<open>a\<close>: the span of \<open>2 ^ (K - 1)\<close> bytes at
    \<open>a\<close> is mapped, its header stores \<open>K - 1\<close>, it is returned, and no stack changes.
  \<^item> \<open>i < K - 1\<close>, pool \<open>i + 1\<close> yielding \<open>m\<close> with stored size \<open>i + 1\<close>: the call
    stores \<open>i\<close> in the header of \<open>m\<close>, stores \<open>i\<close> in a second header at
    \<open>m + 2 ^ i\<close>, pushes that second half on pool \<open>i\<close>, marks \<open>m\<close> live and returns it.
  \<^item> \<open>4 \<le> i < K - 1\<close>, pools in their invariant: the call returns; if the result \<open>h\<close>
    is not null it is what pool \<open>i + 1\<close> yielded, both headers store \<open>i\<close>, stack \<open>i\<close>
    is the second half alone, and \<open>h\<close> is on no stack.
\<close>

theorem pool_get_empty_refill:
  "(i = JP_ALLOC_POOL_COUNT - 1 \<and> head st i = 0 \<and> src st = a # rest \<and> a \<noteq> 0 \<longrightarrow>
      (\<exists>st'. pool_get i st = Some (a, st')
             \<and> maps st' = (a, 2 ^ (JP_ALLOC_POOL_COUNT - 1)) # maps st
             \<and> mem st' (size_of a) = Some (of_nat (JP_ALLOC_POOL_COUNT - 1))
             \<and> head st' = head st))
   \<and> (i < JP_ALLOC_POOL_COUNT - 1 \<and> head st i = 0 \<and> pool_get (i + 1) st = Some (m, st1)
        \<and> m \<noteq> 0 \<and> mem st1 (size_of m) = Some (of_nat (i + 1)) \<longrightarrow>
      pool_get i st =
        do {
          st2 \<leftarrow> store st1 (size_of m) (of_nat i);
          st3 \<leftarrow> store st2 (size_of (m + 2 ^ i)) (of_nat i);
          st4 \<leftarrow> pool_put (m + 2 ^ i) i st3;
          st5 \<leftarrow> store st4 (next_of m) m;
          Some (m, st5)
        })
   \<and> (pool_inv st fl \<and> fresh_src st fl \<and> 4 \<le> i \<and> i < JP_ALLOC_POOL_COUNT - 1
        \<and> head st i = 0 \<longrightarrow>
      (\<exists>h st'. pool_get i st = Some (h, st')
         \<and> (h \<noteq> 0 \<longrightarrow>
              (\<exists>s1. pool_get (i + 1) st = Some (h, s1)
                     \<and> mem s1 (size_of h) = Some (of_nat (i + 1)))
            \<and> mem st' (size_of h) = Some (of_nat i)
            \<and> mem st' (size_of (h + 2 ^ i)) = Some (of_nat i)
            \<and> mem st' (next_of (h + 2 ^ i)) = Some 0
            \<and> mem st' (next_of h) = Some h
            \<and> head st' i = h + 2 ^ i \<and> h + 2 ^ i \<noteq> h
            \<and> (\<exists>fl'. pool_inv st' fl' \<and> fl' i = [h + 2 ^ i]
                      \<and> (\<forall>j<JP_ALLOC_POOL_COUNT. h \<notin> set (fl' j))))))"
proof (intro conjI impI)
  assume h: "i = JP_ALLOC_POOL_COUNT - 1 \<and> head st i = 0 \<and> src st = a # rest \<and> a \<noteq> 0"
  then have "\<exists>st'. pool_get i st = Some (a, st')
           \<and> mem st' (size_of a) = Some (of_nat i) \<and> mem st' (next_of a) = Some a
           \<and> head st' = head st \<and> maps st' = (a, 2 ^ i) # maps st \<and> src st' = rest
           \<and> unmaps st' = unmaps st"
    by (intro pool_get_terminal_fresh) blast+
  with h show "\<exists>st'. pool_get i st = Some (a, st')
             \<and> maps st' = (a, 2 ^ (JP_ALLOC_POOL_COUNT - 1)) # maps st
             \<and> mem st' (size_of a) = Some (of_nat (JP_ALLOC_POOL_COUNT - 1))
             \<and> head st' = head st"
    by auto
next
  assume "i < JP_ALLOC_POOL_COUNT - 1 \<and> head st i = 0 \<and> pool_get (i + 1) st = Some (m, st1)
        \<and> m \<noteq> 0 \<and> mem st1 (size_of m) = Some (of_nat (i + 1))"
  then show "pool_get i st =
        do {
          st2 \<leftarrow> store st1 (size_of m) (of_nat i);
          st3 \<leftarrow> store st2 (size_of (m + 2 ^ i)) (of_nat i);
          st4 \<leftarrow> pool_put (m + 2 ^ i) i st3;
          st5 \<leftarrow> store st4 (next_of m) m;
          Some (m, st5)
        }"
    by (intro pool_get_refill_steps) blast+
next
  assume "pool_inv st fl \<and> fresh_src st fl \<and> 4 \<le> i \<and> i < JP_ALLOC_POOL_COUNT - 1
        \<and> head st i = 0"
  then show "\<exists>h st'. pool_get i st = Some (h, st')
         \<and> (h \<noteq> 0 \<longrightarrow>
              (\<exists>s1. pool_get (i + 1) st = Some (h, s1)
                     \<and> mem s1 (size_of h) = Some (of_nat (i + 1)))
            \<and> mem st' (size_of h) = Some (of_nat i)
            \<and> mem st' (size_of (h + 2 ^ i)) = Some (of_nat i)
            \<and> mem st' (next_of (h + 2 ^ i)) = Some 0
            \<and> mem st' (next_of h) = Some h
            \<and> head st' i = h + 2 ^ i \<and> h + 2 ^ i \<noteq> h
            \<and> (\<exists>fl'. pool_inv st' fl' \<and> fl' i = [h + 2 ^ i]
                      \<and> (\<forall>j<JP_ALLOC_POOL_COUNT. h \<notin> set (fl' j))))"
    by (intro pool_get_split_post) blast+
qed

theorem pool_get_empty_refill_witness:
  "(\<exists>s1. pool_get 15 (init_state [65536]) = Some (65536, s1)
          \<and> maps s1 = [(65536, 2 ^ 15)] \<and> mem s1 65536 = Some 15
          \<and> head s1 = head (init_state [65536])
          \<and> pool_get 14 (init_state [65536]) =
              do {
                st2 \<leftarrow> store s1 65536 14;
                st3 \<leftarrow> store st2 (65536 + 2 ^ 14) 14;
                st4 \<leftarrow> pool_put (65536 + 2 ^ 14) 14 st3;
                st5 \<leftarrow> store st4 (next_of 65536) 65536;
                Some (65536, st5)
              })
   \<and> (\<exists>st'. pool_get 14 (init_state [65536]) = Some (65536, st')
          \<and> mem st' 65536 = Some 14 \<and> mem st' (65536 + 2 ^ 14) = Some 14
          \<and> head st' 14 = 65536 + 2 ^ 14)"
proof -
  define s0 where "s0 = init_state [65536]"
  have inv: "pool_inv s0 (\<lambda>i. [])" unfolding s0_def by (rule pool_inv_init)
  have fr: "fresh_src s0 (\<lambda>i. [])"
    unfolding s0_def by (rule fresh_src_init) (simp add: inblk_def JP_ALLOC_POOL_COUNT_def)
  note A = pool_get_empty_refill [where i = 15 and st = s0 and a = 65536 and rest = "[]",
      THEN conjunct1, rule_format]
  have preA: "15 = JP_ALLOC_POOL_COUNT - 1 \<and> head s0 15 = 0 \<and> src s0 = 65536 # []
      \<and> (65536 :: 64 word) \<noteq> 0"
    by (simp add: s0_def init_state_def JP_ALLOC_POOL_COUNT_def)
  from A [OF preA] obtain s1 where t: "pool_get 15 s0 = Some (65536, s1)"
    and t': "maps s1 = (65536, 2 ^ (JP_ALLOC_POOL_COUNT - 1)) # maps s0"
      "mem s1 (size_of 65536) = Some (of_nat (JP_ALLOC_POOL_COUNT - 1))" "head s1 = head s0"
    by blast
  have t2: "maps s1 = [(65536, 2 ^ 15)]" "mem s1 65536 = Some 15"
    using t' by (simp_all add: JP_ALLOC_POOL_COUNT_def s0_def init_state_def size_of_def)
  note B = pool_get_empty_refill [where i = 14 and st = s0 and m = 65536 and ?st1.0 = s1,
      THEN conjunct2, THEN conjunct1, rule_format]
  have preB: "14 < JP_ALLOC_POOL_COUNT - 1 \<and> head s0 14 = 0 \<and> pool_get (14 + 1) s0 = Some (65536, s1)
        \<and> (65536 :: 64 word) \<noteq> 0 \<and> mem s1 (size_of 65536) = Some (of_nat (14 + 1))"
    using t t2 by (simp add: s0_def init_state_def JP_ALLOC_POOL_COUNT_def size_of_def)
  have b: "pool_get 14 s0 =
              do {
                st2 \<leftarrow> store s1 65536 14;
                st3 \<leftarrow> store st2 (65536 + 2 ^ 14) 14;
                st4 \<leftarrow> pool_put (65536 + 2 ^ 14) 14 st3;
                st5 \<leftarrow> store st4 (next_of 65536) 65536;
                Some (65536, st5)
              }"
    using B [OF preB] by (simp add: size_of_def)
  have first: "map_option fst (pool_get 14 (init_state [65536])) = Some 65536" by code_simp
  note C = pool_get_empty_refill [where i = 14 and st = s0 and fl = "\<lambda>i. []",
      THEN conjunct2, THEN conjunct2, rule_format]
  have preC: "pool_inv s0 (\<lambda>i. []) \<and> fresh_src s0 (\<lambda>i. []) \<and> 4 \<le> (14::nat)
      \<and> 14 < JP_ALLOC_POOL_COUNT - 1 \<and> head s0 14 = 0"
    using inv fr by (simp add: s0_def init_state_def JP_ALLOC_POOL_COUNT_def)
  from C [OF preC] obtain h st' where c: "pool_get 14 s0 = Some (h, st')"
    and c2: "h \<noteq> 0 \<longrightarrow> mem st' (size_of h) = Some (of_nat 14)
       \<and> mem st' (size_of (h + 2 ^ 14)) = Some (of_nat 14) \<and> head st' 14 = h + 2 ^ 14"
    by blast
  from c first have h: "h = 65536" by (simp add: s0_def)
  with c c2 have c': "pool_get 14 s0 = Some (65536, st') \<and> mem st' 65536 = Some 14
      \<and> mem st' (65536 + 2 ^ 14) = Some 14 \<and> head st' 14 = 65536 + 2 ^ 14"
    by (simp add: size_of_def)
  have l: "\<exists>s1. pool_get 15 s0 = Some (65536, s1)
          \<and> maps s1 = [(65536, 2 ^ 15)] \<and> mem s1 65536 = Some 15
          \<and> head s1 = head s0
          \<and> pool_get 14 s0 =
              do {
                st2 \<leftarrow> store s1 65536 14;
                st3 \<leftarrow> store st2 (65536 + 2 ^ 14) 14;
                st4 \<leftarrow> pool_put (65536 + 2 ^ 14) 14 st3;
                st5 \<leftarrow> store st4 (next_of 65536) 65536;
                Some (65536, st5)
              }"
    using t t2 t'(3) b by blast
  from l c' show ?thesis unfolding s0_def by blast
qed

text \<open>
  C7 (as amended). \<open>jp_alloc_aligned(a, n)\<close> returns null, and leaves the state as it
  was, for every nonzero alignment \<open>a\<close> that is not a power of two; in particular
  \<open>jp_alloc_aligned(3, 16)\<close> is null. Alignment 0 passes \<open>is_pow2\<close> and is served
  exactly like the minimum alignment \<open>sizeof(header)\<close>: when the page source grants a span
  \<open>s\<close> that is a multiple of \<open>sizeof(header)\<close> (a power of two), and the page-rounded
  size of \<open>n + sizeof(header)\<close> exceeds 8 bytes, \<open>jp_alloc_aligned(0, n)\<close> returns the
  non-null pointer \<open>s + sizeof(header)\<close>, whose header stores \<open>n + sizeof(header)\<close>.
\<close>

theorem jp_alloc_aligned_rejects:
  "(a \<noteq> 0 \<and> (\<forall>k<64. a \<noteq> 2 ^ k) \<longrightarrow> jp_alloc_aligned ps hs a n st = Some (0, st))
   \<and> jp_alloc_aligned ps hs 3 16 st = Some (0, st)
   \<and> (is_pow2 hs \<and> hs \<le> ps \<longrightarrow> jp_alloc_aligned ps hs 0 n st = jp_alloc_aligned ps hs hs n st)
   \<and> (hs = 2 ^ j \<and> src st = s # rest \<and> s \<noteq> 0 \<and> s AND (hs - 1) = 0 \<and> s + hs \<noteq> 0
        \<and> 8 < round_pages ps (n + hs) \<longrightarrow>
      (\<exists>q st'. jp_alloc_aligned ps hs 0 n st = Some (q, st') \<and> q \<noteq> 0 \<and> q = s + hs
         \<and> mem st' (q - hs) = Some (n + hs)))"
proof (intro conjI impI)
  assume "a \<noteq> 0 \<and> (\<forall>k<64. a \<noteq> 2 ^ k)"
  then have "\<not> is_pow2 a" by (simp add: is_pow2_iff)
  then show "jp_alloc_aligned ps hs a n st = Some (0, st)"
    by (simp add: jp_alloc_aligned_def alloc_pages_aligned_def)
next
  have "\<not> is_pow2 3" by (simp add: is_pow2_def)
  then show "jp_alloc_aligned ps hs 3 16 st = Some (0, st)"
    by (simp add: jp_alloc_aligned_def alloc_pages_aligned_def)
next
  assume "is_pow2 hs \<and> hs \<le> ps"
  moreover have "is_pow2 0" by (simp add: is_pow2_def)
  ultimately show "jp_alloc_aligned ps hs 0 n st = jp_alloc_aligned ps hs hs n st"
    by (simp add: jp_alloc_aligned_def alloc_pages_aligned_def not_less [symmetric] word_gt_0)
next
  assume h: "hs = 2 ^ j \<and> src st = s # rest \<and> s \<noteq> 0 \<and> s AND (hs - 1) = 0 \<and> s + hs \<noteq> 0
        \<and> 8 < round_pages ps (n + hs)"
  then obtain st' where "jp_alloc_aligned ps hs 0 n st = Some (s + hs, st')"
    "mem st' s = Some (n + hs)"
    using jp_alloc_aligned_zero_succeeds [of hs j st s rest ps n] by blast
  moreover from h have "s + hs \<noteq> 0" by blast
  ultimately show "\<exists>q st'. jp_alloc_aligned ps hs 0 n st = Some (q, st') \<and> q \<noteq> 0 \<and> q = s + hs
         \<and> mem st' (q - hs) = Some (n + hs)"
    by simp
qed

theorem jp_alloc_aligned_rejects_witness:
  "jp_alloc_aligned 4096 32 6 16 (init_state [65536]) = Some (0, init_state [65536])
   \<and> jp_alloc_aligned 4096 32 0 16 (init_state [65536]) = jp_alloc_aligned 4096 32 32 16 (init_state [65536])
   \<and> (\<exists>st'. jp_alloc_aligned 4096 32 0 16 (init_state [65536]) = Some (65568, st')
         \<and> mem st' 65536 = Some 48)"
proof -
  have "\<not> is_pow2 6" by (simp add: is_pow2_def)
  then have h1: "(6 :: 64 word) \<noteq> 0 \<and> (\<forall>k<64. (6 :: 64 word) \<noteq> 2 ^ k)"
    by (simp add: is_pow2_iff)
  have h2: "is_pow2 32 \<and> (32 :: 64 word) \<le> 4096" by (simp add: is_pow2_def)
  have h3: "(32 :: 64 word) = 2 ^ 5 \<and> src (init_state [65536]) = 65536 # []
      \<and> (65536 :: 64 word) \<noteq> 0 \<and> (65536 :: 64 word) AND (32 - 1) = 0
      \<and> (65536 :: 64 word) + 32 \<noteq> 0 \<and> 8 < round_pages 4096 (16 + 32)"
    by (simp add: init_state_def round_pages_def)
  note T = jp_alloc_aligned_rejects [of 6 4096 32 16 "init_state [65536]" 5 65536 "[]"]
  from T h1 have c1: "jp_alloc_aligned 4096 32 6 16 (init_state [65536]) = Some (0, init_state [65536])"
    by blast
  from T h2 have c2: "jp_alloc_aligned 4096 32 0 16 (init_state [65536])
      = jp_alloc_aligned 4096 32 32 16 (init_state [65536])"
    by blast
  from T h3 obtain q st' where "jp_alloc_aligned 4096 32 0 16 (init_state [65536]) = Some (q, st')"
    "q = 65536 + 32" "mem st' (q - 32) = Some (16 + 32)"
    by blast
  then have "jp_alloc_aligned 4096 32 0 16 (init_state [65536]) = Some (65568, st')
      \<and> mem st' 65536 = Some 48" by simp
  with c1 c2 show ?thesis by blast
qed

text \<open>
  C7 as stated fails at alignment 0: with a page source that grants the span at 65536,
  \<open>jp_alloc_aligned(0, 16)\<close> returns the non-null pointer 65568.
\<close>

theorem jp_alloc_aligned_zero_counterexample:
  "map_option fst (jp_alloc_aligned 4096 32 0 16 (init_state [65536])) = Some 65568"
  by code_simp

text \<open>
  C8 (as amended). For every \<open>n > 0\<close>, \<open>jp_realloc(null, n)\<close> is \<open>jp_alloc(n)\<close>;
  \<open>jp_realloc(null, 0)\<close> returns null and allocates nothing. For a non-null \<open>p\<close> whose
  header can be read, \<open>jp_realloc(p, 0)\<close> frees \<open>p\<close> and returns null, and
  \<open>jp_realloc(p, n)\<close> with \<open>0 < n\<close> at most the usable size returns \<open>p\<close> and changes
  nothing.
\<close>

theorem jp_realloc_edge_cases:
  "(n \<noteq> 0 \<longrightarrow> jp_realloc ps hs 0 n st = jp_alloc ps hs n st)
   \<and> jp_realloc ps hs 0 0 st = Some (0, st)
   \<and> (p \<noteq> 0 \<and> mem st (p - hs) \<noteq> None \<longrightarrow>
        jp_realloc ps hs p 0 st = map_option (\<lambda>st'. (0, st')) (jp_free ps hs p st))
   \<and> (p \<noteq> 0 \<and> malloc_usable_size hs p st = Some u \<and> 0 < n \<and> n \<le> u \<longrightarrow>
        jp_realloc ps hs p n st = Some (p, st))"
proof (intro conjI impI)
  assume n: "n \<noteq> 0"
  then have "0 < n" by (simp add: word_gt_0)
  then show "jp_realloc ps hs 0 n st = jp_alloc ps hs n st"
    by (cases "jp_alloc ps hs n st")
       (auto simp: jp_realloc_def jp_free_def memcpy_zero)
next
  show "jp_realloc ps hs 0 0 st = Some (0, st)"
    by (simp add: jp_realloc_def jp_free_def)
next
  assume "p \<noteq> 0 \<and> mem st (p - hs) \<noteq> None"
  then show "jp_realloc ps hs p 0 st = map_option (\<lambda>st'. (0, st')) (jp_free ps hs p st)"
    by (cases "jp_free ps hs p st")
       (auto simp: jp_realloc_def load_def size_of_def Let_def)
next
  assume h: "p \<noteq> 0 \<and> malloc_usable_size hs p st = Some u \<and> 0 < n \<and> n \<le> u"
  then have "\<not> u < n" "n \<noteq> 0" by auto
  with h show "jp_realloc ps hs p n st = Some (p, st)"
    by (auto simp: jp_realloc_def malloc_usable_size_def Let_def split: bind_splits)
qed

theorem jp_realloc_edge_cases_witness:
  "jp_realloc 4096 32 0 20 live_block_state = jp_alloc 4096 32 20 live_block_state
   \<and> jp_realloc 4096 32 65568 0 live_block_state
       = map_option (\<lambda>st'. (0, st')) (jp_free 4096 32 65568 live_block_state)
   \<and> jp_realloc 4096 32 65568 20 live_block_state = Some (65568, live_block_state)"
proof -
  have h1: "(20 :: 64 word) \<noteq> 0" by simp
  have h3: "(65568 :: 64 word) \<noteq> 0 \<and> mem live_block_state (65568 - 32) \<noteq> None"
    by (simp add: live_block_state_def)
  have "malloc_usable_size 32 65568 live_block_state = Some 32"
    by (simp add: malloc_usable_size_def live_block_state_def load_def size_of_def
        JP_ALLOC_POOL_COUNT_def shl1U_def)
  then have h4: "(65568 :: 64 word) \<noteq> 0 \<and> malloc_usable_size 32 65568 live_block_state = Some 32
      \<and> (0 :: 64 word) < 20 \<and> (20 :: 64 word) \<le> 32" by simp
  show ?thesis
    using jp_realloc_edge_cases [of 20 4096 32 live_block_state 65568 32] h1 h3 h4 by simp
qed

text \<open>
  C8 as stated fails at \<open>n = 0\<close>: \<open>jp_realloc(null, 0)\<close> returns null, \<open>jp_alloc(0)\<close>
  returns a block.
\<close>

theorem jp_realloc_null_zero_counterexample:
  "map_option fst (jp_realloc 4096 32 0 0 (init_state [65536])) = Some 0
   \<and> map_option fst (jp_alloc 4096 32 0 (init_state [65536])) = Some 65568"
  by code_simp

text \<open>
  C9 (as amended). \<open>pool_get\<close> terminates on every pool index and every state, whatever
  the page source answers. A call that returns yields one of four things: null; the head
  of a non-empty pool; at the terminal pool \<open>K - 1\<close>, a span freshly granted by the page
  source; below it, what pool \<open>p + 1\<close> yielded, with the other half pushed on pool \<open>p\<close>.
  A null from pool \<open>p + 1\<close> is returned as null by pool \<open>p\<close>; so when every pool from
  \<open>p\<close> up is empty and the page source fails, \<open>pool_get p\<close> returns null. With the pools
  in their invariant, \<open>pool_get\<close> returns for every class from 4 on.
\<close>

theorem pool_get_outcome_cases:
  "pool_get_dom (p, st)
   \<and> (pool_get p st = Some (m, st') \<longrightarrow>
        p < JP_ALLOC_POOL_COUNT
        \<and> (m = 0
           \<or> (head st p \<noteq> 0 \<and> m = head st p)
           \<or> (head st p = 0 \<and> p = JP_ALLOC_POOL_COUNT - 1 \<and> src st = m # src st'
                \<and> maps st' = (m, 2 ^ (JP_ALLOC_POOL_COUNT - 1)) # maps st)
           \<or> (head st p = 0 \<and> p < JP_ALLOC_POOL_COUNT - 1
                \<and> (\<exists>st1 sz0. pool_get (p + 1) st = Some (m, st1)
                       \<and> mem st1 (size_of m) = Some sz0
                       \<and> head st' p = m + shl1U (sz0 - 1)))))
   \<and> (p < JP_ALLOC_POOL_COUNT - 1 \<and> head st p = 0 \<and> pool_get (p + 1) st = Some (0, st1) \<longrightarrow>
        pool_get p st = Some (0, st1))
   \<and> (p < JP_ALLOC_POOL_COUNT \<and> (\<forall>q. p \<le> q \<and> q < JP_ALLOC_POOL_COUNT \<longrightarrow> head st q = 0)
        \<and> (src st = [] \<or> hd (src st) = 0) \<longrightarrow>
        pool_get p st = Some (0, st\<lparr>src := tl (src st)\<rparr>))
   \<and> (pool_inv st fl \<and> fresh_src st fl \<and> 4 \<le> p \<and> p < JP_ALLOC_POOL_COUNT \<longrightarrow>
        (\<exists>r. pool_get p st = Some r))"
proof -
  have c1: "pool_get_dom (p, st)" by (rule pool_get_total)
  have c2: "pool_get p st = Some (m, st') \<longrightarrow>
        p < JP_ALLOC_POOL_COUNT
        \<and> (m = 0
           \<or> (head st p \<noteq> 0 \<and> m = head st p)
           \<or> (head st p = 0 \<and> p = JP_ALLOC_POOL_COUNT - 1 \<and> src st = m # src st'
                \<and> maps st' = (m, 2 ^ (JP_ALLOC_POOL_COUNT - 1)) # maps st)
           \<or> (head st p = 0 \<and> p < JP_ALLOC_POOL_COUNT - 1
                \<and> (\<exists>st1 sz0. pool_get (p + 1) st = Some (m, st1)
                       \<and> mem st1 (size_of m) = Some sz0
                       \<and> head st' p = m + shl1U (sz0 - 1))))"
    by (rule impI) (rule pool_get_outcomes)
  have c3: "p < JP_ALLOC_POOL_COUNT - 1 \<and> head st p = 0 \<and> pool_get (p + 1) st = Some (0, st1) \<longrightarrow>
        pool_get p st = Some (0, st1)"
  proof
    assume h: "p < JP_ALLOC_POOL_COUNT - 1 \<and> head st p = 0 \<and> pool_get (p + 1) st = Some (0, st1)"
    then have "p < JP_ALLOC_POOL_COUNT - 1" "head st p = 0" "pool_get (p + 1) st = Some (0, st1)"
      by simp_all
    then show "pool_get p st = Some (0, st1)" by (rule pool_get_refill_null)
  qed
  have c4: "p < JP_ALLOC_POOL_COUNT \<and> (\<forall>q. p \<le> q \<and> q < JP_ALLOC_POOL_COUNT \<longrightarrow> head st q = 0)
        \<and> (src st = [] \<or> hd (src st) = 0) \<longrightarrow>
        pool_get p st = Some (0, st\<lparr>src := tl (src st)\<rparr>)"
  proof
    assume h: "p < JP_ALLOC_POOL_COUNT \<and> (\<forall>q. p \<le> q \<and> q < JP_ALLOC_POOL_COUNT \<longrightarrow> head st q = 0)
        \<and> (src st = [] \<or> hd (src st) = 0)"
    then have "p < JP_ALLOC_POOL_COUNT"
      "\<forall>q. p \<le> q \<and> q < JP_ALLOC_POOL_COUNT \<longrightarrow> head st q = 0" "src st = [] \<or> hd (src st) = 0"
      by simp_all
    then show "pool_get p st = Some (0, st\<lparr>src := tl (src st)\<rparr>)" by (rule pool_get_null_chain)
  qed
  have c5: "pool_inv st fl \<and> fresh_src st fl \<and> 4 \<le> p \<and> p < JP_ALLOC_POOL_COUNT \<longrightarrow>
        (\<exists>r. pool_get p st = Some r)"
  proof
    assume h: "pool_inv st fl \<and> fresh_src st fl \<and> 4 \<le> p \<and> p < JP_ALLOC_POOL_COUNT"
    then have "pool_inv st fl" "fresh_src st fl" "4 \<le> p" "p < JP_ALLOC_POOL_COUNT" by simp_all
    from pool_get_inv [OF this] obtain m' s' where "pool_get p st = Some (m', s')" by blast
    then show "\<exists>r. pool_get p st = Some r" by (rule exI [of _ "(m', s')"])
  qed
  from c1 c2 c3 c4 c5 show ?thesis by (intro conjI)
qed

theorem pool_get_outcome_cases_witness:
  "pool_get_dom (14, init_state [65536])
   \<and> pool_get 15 (init_state [0, 65536]) = Some (0, init_state [65536])
   \<and> pool_get 14 (init_state [0, 65536]) = Some (0, init_state [65536])
   \<and> (\<exists>st'. pool_get 14 (init_state [65536]) = Some (65536, st')
          \<and> (\<exists>st1 sz0. pool_get 15 (init_state [65536]) = Some (65536, st1)
                 \<and> mem st1 65536 = Some sz0 \<and> head st' 14 = 65536 + shl1U (sz0 - 1)))"
proof -
  define f where "f = init_state [0, 65536]"
  define s0 where "s0 = init_state [65536]"
  have tl: "f\<lparr>src := tl (src f)\<rparr> = s0" by (simp add: f_def s0_def init_state_def)
  note D = pool_get_outcome_cases [where p = 14 and st = s0, THEN conjunct1]
  note N15 = pool_get_outcome_cases [where p = 15 and st = f,
      THEN conjunct2, THEN conjunct2, THEN conjunct2, THEN conjunct1, rule_format]
  have pre15: "15 < JP_ALLOC_POOL_COUNT \<and> (\<forall>q. 15 \<le> q \<and> q < JP_ALLOC_POOL_COUNT \<longrightarrow> head f q = 0)
        \<and> (src f = [] \<or> hd (src f) = 0)"
    by (simp add: f_def init_state_def JP_ALLOC_POOL_COUNT_def)
  have n15: "pool_get 15 f = Some (0, s0)" using N15 [OF pre15] tl by simp
  note N14 = pool_get_outcome_cases [where p = 14 and st = f and ?st1.0 = s0,
      THEN conjunct2, THEN conjunct2, THEN conjunct1, rule_format]
  have pre14: "14 < JP_ALLOC_POOL_COUNT - 1 \<and> head f 14 = 0 \<and> pool_get (14 + 1) f = Some (0, s0)"
    using n15 by (simp add: f_def init_state_def JP_ALLOC_POOL_COUNT_def)
  have n14: "pool_get 14 f = Some (0, s0)" by (rule N14 [OF pre14])
  note R = pool_get_outcome_cases [where p = 14 and st = s0 and fl = "\<lambda>i. []",
      THEN conjunct2, THEN conjunct2, THEN conjunct2, THEN conjunct2, rule_format]
  have inv: "pool_inv s0 (\<lambda>i. [])" unfolding s0_def by (rule pool_inv_init)
  have fr: "fresh_src s0 (\<lambda>i. [])"
    unfolding s0_def by (rule fresh_src_init) (simp add: inblk_def JP_ALLOC_POOL_COUNT_def)
  have preR: "pool_inv s0 (\<lambda>i. []) \<and> fresh_src s0 (\<lambda>i. []) \<and> 4 \<le> (14::nat)
      \<and> 14 < JP_ALLOC_POOL_COUNT"
    using inv fr by (simp add: JP_ALLOC_POOL_COUNT_def)
  from R [OF preR] obtain m st' where r: "pool_get 14 s0 = Some (m, st')" by force
  have "map_option fst (pool_get 14 (init_state [65536])) = Some 65536" by code_simp
  with r have m: "m = 65536" by (simp add: s0_def)
  note O = pool_get_outcome_cases [where p = 14 and st = s0 and m = 65536 and st' = st',
      THEN conjunct2, THEN conjunct1, rule_format]
  have hd0: "head s0 14 = 0" "14 \<noteq> JP_ALLOC_POOL_COUNT - 1"
    by (simp_all add: s0_def init_state_def JP_ALLOC_POOL_COUNT_def)
  from O [OF r [unfolded m]] hd0
  have "\<exists>st1 sz0. pool_get (14 + 1) s0 = Some (65536, st1) \<and> mem st1 (size_of 65536) = Some sz0
          \<and> head st' 14 = 65536 + shl1U (sz0 - 1)"
    by simp
  then have o: "\<exists>st1 sz0. pool_get 15 s0 = Some (65536, st1) \<and> mem st1 65536 = Some sz0
          \<and> head st' 14 = 65536 + shl1U (sz0 - 1)"
    by (simp add: size_of_def)
  from r m o have e: "\<exists>st'. pool_get 14 s0 = Some (65536, st')
          \<and> (\<exists>st1 sz0. pool_get 15 s0 = Some (65536, st1)
                 \<and> mem st1 65536 = Some sz0 \<and> head st' 14 = 65536 + shl1U (sz0 - 1))"
    by blast
  from D n15 n14 e show ?thesis unfolding f_def s0_def by (intro conjI)
qed

text \<open>
  C9 as stated leaves out a case: on the empty terminal pool, \<open>pool_get\<close> returns the
  span the page source granted at 65536. It was on no stack, and nothing is split: no
  stack has changed.
\<close>

theorem pool_get_fresh_span_counterexample:
  "head (init_state [65536]) 15 = 0
   \<and> map_option (\<lambda>r. (fst r, maps (snd r), head (snd r) 15)) (pool_get 15 (init_state [65536]))
       = Some (65536, [(65536, 32768)], 0)"
  by code_simp




end
